theory Spec2Isabelle
  imports Main "HOL-Library.Monad_Syntax"
begin

section \<open>Outcomes of a call\<close>

text \<open>
  A member function either returns (with a result and the state it leaves), throws a C++
  exception (leaving the state it had reached when the \<open>throw\<close> ran) or has undefined
  behaviour: a null or dangling pointer is dereferenced, an array is indexed outside its
  bounds, or a cell is read that was never assigned. Helper loops that cannot throw use
  \<open>option\<close>, with \<open>None\<close> for undefined behaviour.

  The C++ type \<open>int\<close> is taken to be 32 bits wide and its values are written as
  integers. The one computation that leaves the range of \<open>int\<close> on a vector that
  satisfies its invariant is \<open>capacity *= 2\<close> in \<open>resize\<close>; there the wrap-around of the
  two's complement targets is written out (\<open>int32\<close>): from \<open>2 ^ 30\<close> the capacity becomes
  \<open>- (2 ^ 31)\<close> and \<open>new T[capacity]\<close> throws \<open>std::bad_array_new_length\<close>. The counter
  \<open>length\<close> of a vector stays below its capacity whenever it is incremented. The counters
  of the two lists are incremented without a bound in the model; a list of \<open>INT_MAX\<close> nodes
  is outside it.

  Every operation with a \<open>T &\<close> and a \<open>T &&\<close> overload has one model: both bodies are
  the same up to copying or moving the element.
\<close>

datatype exn = out_of_range | bad_array_new_length

datatype ('r, 's) outcome = Returns 'r 's | Throws exn 's | Undefined

definition int32 :: "int \<Rightarrow> int" where
  "int32 n = (n + 2 ^ 31) mod 2 ^ 32 - 2 ^ 31"

section \<open>myvector (src/src/myvector.h)\<close>

text \<open>
  \<open>std::unique_ptr<T[]>\<close>: either \<open>nullptr\<close> or the exclusively owned array. A cell of
  \<open>new T[n]\<close> holds no value (\<open>None\<close>) until it is assigned.
\<close>

datatype 'a array_ptr = Null | Array "'a option list"

record 'a myvector =
  data :: "'a array_ptr"
  capacity :: int
  length_v :: int

fun rd :: "'a array_ptr \<Rightarrow> int \<Rightarrow> 'a option" where
  "rd Null i = None"
| "rd (Array cs) i = (if 0 \<le> i \<and> i < int (length cs) then cs ! nat i else None)"

fun wr :: "'a array_ptr \<Rightarrow> int \<Rightarrow> 'a \<Rightarrow> 'a array_ptr option" where
  "wr Null i x = None"
| "wr (Array cs) i x =
     (if 0 \<le> i \<and> i < int (length cs) then Some (Array (cs[nat i := Some x])) else None)"

definition new_array :: "int \<Rightarrow> 'a array_ptr" where
  "new_array n = Array (replicate (nat n) None)"

text \<open>\<open>for (int i = 0; i < length; ++i) newData[i] = data[i];\<close>\<close>

function copy_loop :: "int \<Rightarrow> int \<Rightarrow> 'a array_ptr \<Rightarrow> 'a array_ptr \<Rightarrow> 'a array_ptr option" where
  "copy_loop i n src newData =
     (if i < n then
        (case rd src i of
           None \<Rightarrow> None
         | Some x \<Rightarrow>
             (case wr newData i x of
                None \<Rightarrow> None
              | Some newData' \<Rightarrow> copy_loop (i + 1) n src newData'))
      else Some newData)"
  by pat_completeness auto
termination
  by (relation "measure (\<lambda>(i, n, src, newData). nat (n - i))") auto

declare copy_loop.simps [simp del]

definition resize :: "'a myvector \<Rightarrow> (unit, 'a myvector) outcome" where
  "resize v =
     (let v1 = v\<lparr>capacity := int32 (capacity v * 2)\<rparr> in
      if capacity v1 < 0 then Throws bad_array_new_length v1
      else
        (case copy_loop 0 (length_v v1) (data v1) (new_array (capacity v1)) of
           None \<Rightarrow> Undefined
         | Some newData \<Rightarrow> Returns () (v1\<lparr>data := newData\<rparr>)))"

definition myvector_ctor :: "'a myvector" where
  "myvector_ctor = \<lparr>data = new_array 1, capacity = 1, length_v = 0\<rparr>"

text \<open>The move constructor returns the new object and the state it leaves \<open>vect\<close> in.\<close>

definition move_ctor_v :: "'a myvector \<Rightarrow> 'a myvector \<times> 'a myvector" where
  "move_ctor_v vect =
     (\<lparr>data = data vect, capacity = capacity vect, length_v = length_v vect\<rparr>,
      \<lparr>data = Null, capacity = 0, length_v = 0\<rparr>)"

definition size_v :: "'a myvector \<Rightarrow> int" where
  "size_v v = length_v v"

text \<open>
  \<open>push_back\<close> and \<open>insert\<close> take their element by reference (\<open>val\<close> below) and
  read it only when they store it, after \<open>resize\<close> and the shift of the elements.
  \<open>Value x\<close> is a reference to an object outside the array of the vector, holding \<open>x\<close>.
  \<open>Element k\<close> is a reference to the cell \<open>data[k]\<close> of the vector the call is made on, as
  in \<open>v.push_back(v[k])\<close>: it reads what that cell holds at the time of the store, and
  once \<open>resize\<close> has released the old array it dangles, so that reading it is undefined.
  \<open>released\<close> says whether \<open>resize\<close> ran.
\<close>

datatype 'a arg = Value 'a | Element int

fun fetch :: "'a arg \<Rightarrow> bool \<Rightarrow> 'a array_ptr \<Rightarrow> 'a option" where
  "fetch (Value x) released d = Some x"
| "fetch (Element k) released d = (if released then None else rd d k)"

definition push_back_v :: "'a arg \<Rightarrow> 'a myvector \<Rightarrow> (unit, 'a myvector) outcome" where
  "push_back_v val v =
     (case (if length_v v = capacity v then resize v else Returns () v) of
        Returns _ v1 \<Rightarrow>
          (case fetch val (length_v v = capacity v) (data v1) of
             None \<Rightarrow> Undefined
           | Some x \<Rightarrow>
               (case wr (data v1) (length_v v1) x of
                  None \<Rightarrow> Undefined
                | Some d \<Rightarrow> Returns () (v1\<lparr>data := d, length_v := length_v v1 + 1\<rparr>)))
      | Throws e s \<Rightarrow> Throws e s
      | Undefined \<Rightarrow> Undefined)"

text \<open>\<open>for (int i = length; i > position; --i) data[i] = data[i - 1];\<close>\<close>

function shift_right :: "int \<Rightarrow> int \<Rightarrow> 'a array_ptr \<Rightarrow> 'a array_ptr option" where
  "shift_right i position d =
     (if i > position then
        (case rd d (i - 1) of
           None \<Rightarrow> None
         | Some x \<Rightarrow>
             (case wr d i x of
                None \<Rightarrow> None
              | Some d' \<Rightarrow> shift_right (i - 1) position d'))
      else Some d)"
  by pat_completeness auto
termination
  by (relation "measure (\<lambda>(i, position, d). nat (i - position))") auto

declare shift_right.simps [simp del]

definition insert_v :: "'a arg \<Rightarrow> int \<Rightarrow> 'a myvector \<Rightarrow> (unit, 'a myvector) outcome" where
  "insert_v val position v =
     (if position > length_v v \<or> position < 0 then Throws out_of_range v
      else
        (case (if length_v v = capacity v then resize v else Returns () v) of
           Returns _ v1 \<Rightarrow>
             (case shift_right (length_v v1) position (data v1) of
                None \<Rightarrow> Undefined
              | Some d \<Rightarrow>
                  (case fetch val (length_v v = capacity v) d of
                     None \<Rightarrow> Undefined
                   | Some x \<Rightarrow>
                       (case wr d position x of
                          None \<Rightarrow> Undefined
                        | Some d' \<Rightarrow>
                            Returns () (v1\<lparr>data := d', length_v := length_v v1 + 1\<rparr>))))
         | Throws e s \<Rightarrow> Throws e s
         | Undefined \<Rightarrow> Undefined))"

text \<open>\<open>for (int i = position; i < length - 1; ++i) data[i] = data[i + 1];\<close>\<close>

function shift_left :: "int \<Rightarrow> int \<Rightarrow> 'a array_ptr \<Rightarrow> 'a array_ptr option" where
  "shift_left i n d =
     (if i < n - 1 then
        (case rd d (i + 1) of
           None \<Rightarrow> None
         | Some x \<Rightarrow>
             (case wr d i x of
                None \<Rightarrow> None
              | Some d' \<Rightarrow> shift_left (i + 1) n d'))
      else Some d)"
  by pat_completeness auto
termination
  by (relation "measure (\<lambda>(i, n, d). nat (n - i))") auto

declare shift_left.simps [simp del]

definition erase_v :: "int \<Rightarrow> 'a myvector \<Rightarrow> (unit, 'a myvector) outcome" where
  "erase_v position v =
     (if position \<ge> length_v v \<or> position < 0 then Throws out_of_range v
      else
        (case shift_left position (length_v v) (data v) of
           None \<Rightarrow> Undefined
         | Some d \<Rightarrow> Returns () (v\<lparr>data := d, length_v := length_v v - 1\<rparr>)))"

text \<open>
  \<open>operator[]\<close> returns a reference: \<open>at_v\<close> reads through it and \<open>assign_at_v\<close>
  writes through it (\<open>v[index] = x\<close>).
\<close>

definition at_v :: "int \<Rightarrow> 'a myvector \<Rightarrow> ('a, 'a myvector) outcome" where
  "at_v index v =
     (if index < 0 \<or> index \<ge> length_v v then Throws out_of_range v
      else (case rd (data v) index of None \<Rightarrow> Undefined | Some x \<Rightarrow> Returns x v))"

definition assign_at_v :: "int \<Rightarrow> 'a \<Rightarrow> 'a myvector \<Rightarrow> (unit, 'a myvector) outcome" where
  "assign_at_v index x v =
     (if index < 0 \<or> index \<ge> length_v v then Throws out_of_range v
      else (case wr (data v) index x of None \<Rightarrow> Undefined | Some d \<Rightarrow> Returns () (v\<lparr>data := d\<rparr>)))"

text \<open>
  \<open>print\<close> writes to \<open>std::cout\<close>; the model returns the text written. \<open>shw\<close> is
  \<open>operator<<\<close> of the element type.
\<close>

function print_loop_v :: "('a \<Rightarrow> string) \<Rightarrow> int \<Rightarrow> 'a myvector \<Rightarrow> string \<Rightarrow> string option" where
  "print_loop_v shw i v out =
     (if i < length_v v then
        (case rd (data v) i of
           None \<Rightarrow> None
         | Some x \<Rightarrow> print_loop_v shw (i + 1) v (out @ shw x @ '' ''))
      else Some out)"
  by pat_completeness auto
termination
  by (relation "measure (\<lambda>(shw, i, v, out). nat (length_v v - i))") auto

declare print_loop_v.simps [simp del]

definition print_v :: "('a \<Rightarrow> string) \<Rightarrow> 'a myvector \<Rightarrow> (string, 'a myvector) outcome" where
  "print_v shw v =
     (case print_loop_v shw 0 v [] of
        None \<Rightarrow> Undefined
      | Some out \<Rightarrow> Returns (out @ [CHR 0x0A]) v)"

text \<open>
  The assignment operators compare \<open>this\<close> with the address of their argument, so they
  are modelled on a store of objects: \<open>this\<close> and \<open>vect\<close> are addresses of objects.
\<close>

definition move_assign_v ::
  "nat \<Rightarrow> nat \<Rightarrow> (nat \<Rightarrow> 'a myvector) \<Rightarrow> (unit, nat \<Rightarrow> 'a myvector) outcome" where
  "move_assign_v this vect \<sigma> =
     (if this = vect then Returns () \<sigma>
      else
        Returns ()
          (\<sigma>(this := \<lparr>data = data (\<sigma> vect), capacity = capacity (\<sigma> vect),
                      length_v = length_v (\<sigma> vect)\<rparr>,
             vect := \<lparr>data = Null, capacity = 0, length_v = 0\<rparr>)))"

definition copy_assign_v ::
  "nat \<Rightarrow> nat \<Rightarrow> (nat \<Rightarrow> 'a myvector) \<Rightarrow> (unit, nat \<Rightarrow> 'a myvector) outcome" where
  "copy_assign_v this vect \<sigma> =
     (if this = vect then Returns () \<sigma>
      else if capacity (\<sigma> vect) < 0 then Throws bad_array_new_length \<sigma>
      else
        (case copy_loop 0 (length_v (\<sigma> vect)) (data (\<sigma> vect)) (new_array (capacity (\<sigma> vect))) of
           None \<Rightarrow> Undefined
         | Some newData \<Rightarrow>
             Returns ()
               (\<sigma>(this := \<lparr>data = newData, capacity = capacity (\<sigma> vect),
                           length_v = length_v (\<sigma> vect)\<rparr>))))"

text \<open>
  \<open>Iterator\<close> holds a raw pointer into the array: the model keeps its offset from
  \<open>data.get()\<close>.
\<close>

definition begin_v :: "'a myvector \<Rightarrow> int" where
  "begin_v v = 0"

definition end_v :: "'a myvector \<Rightarrow> int" where
  "end_v v = length_v v"

definition incr_v :: "int \<Rightarrow> int" where
  "incr_v ptr = ptr + 1"

definition deref_v :: "'a myvector \<Rightarrow> int \<Rightarrow> 'a option" where
  "deref_v v ptr = rd (data v) ptr"

text \<open>
  The loop of src/main.cpp that reads a container through its iterators:
  \<open>for (auto i = v.begin(); i != v.end(); ++i) std::cout << *i << " ";\<close>
  The model collects the elements read.
\<close>

function iterate_v :: "'a myvector \<Rightarrow> int \<Rightarrow> int \<Rightarrow> 'a list \<Rightarrow> 'a list option" where
  "iterate_v v i e acc =
     (if i \<noteq> e then
        (case deref_v v i of
           None \<Rightarrow> None
         | Some x \<Rightarrow> iterate_v v (incr_v i) e (acc @ [x]))
      else Some acc)"
  by pat_completeness auto
termination
proof (relation "measure (\<lambda>(v, i, e, acc). case data v of Null \<Rightarrow> 0 | Array cs \<Rightarrow> nat (int (length cs) - i))")
  show "wf (measure (\<lambda>(v, i, e, acc). case data v of Null \<Rightarrow> 0 | Array cs \<Rightarrow> nat (int (length cs) - i)))"
    by simp
next
  fix v :: "'a myvector" and i e :: int and acc :: "'a list" and x :: 'a
  assume "i \<noteq> e" and "deref_v v i = Some x"
  then show "((v, incr_v i, e, acc @ [x]), (v, i, e, acc))
      \<in> measure (\<lambda>(v, i, e, acc). case data v of Null \<Rightarrow> 0 | Array cs \<Rightarrow> nat (int (length cs) - i))"
    by (cases "data v") (auto simp: deref_v_def incr_v_def split: if_splits)
qed

declare iterate_v.simps [simp del]

text \<open>
  The loop of src/main.cpp that fills a container: \<open>push_back\<close> for each element, each
  passed from a variable of the caller.
\<close>

fun append_all_v :: "'a list \<Rightarrow> 'a myvector \<Rightarrow> (unit, 'a myvector) outcome" where
  "append_all_v [] v = Returns () v"
| "append_all_v (x # xs) v =
     (case push_back_v (Value x) v of
        Returns _ v' \<Rightarrow> append_all_v xs v'
      | Throws e s \<Rightarrow> Throws e s
      | Undefined \<Rightarrow> Undefined)"

text \<open>The logical sequence of a vector, and the invariant of its data model.\<close>

definition elems_v :: "'a myvector \<Rightarrow> 'a list" where
  "elems_v v =
     (case data v of Null \<Rightarrow> [] | Array cs \<Rightarrow> map the (take (nat (length_v v)) cs))"

definition inv_v :: "'a myvector \<Rightarrow> bool" where
  "inv_v v =
     (0 \<le> length_v v \<and> length_v v \<le> capacity v \<and>
      (case data v of
         Null \<Rightarrow> capacity v = 0
       | Array cs \<Rightarrow>
           int (length cs) = capacity v \<and> list_all (\<lambda>c. c \<noteq> None) (take (nat (length_v v)) cs)))"

section \<open>slist (src/src/slist.h)\<close>

text \<open>
  A node owns its successor through \<open>std::unique_ptr\<close>: no node has two owners, so
  the chain is a value and a \<open>unique_ptr<Node<T>>\<close> is an optional node. A raw
  \<open>Node<T> *\<close> obtained by \<open>get()\<close> names a node of the chain; a loop that walks such
  a pointer and then assigns through it becomes a recursion that rebuilds the chain around
  the node it stops at.
\<close>

datatype 'a Node = Node (value_n: 'a) (next_n: "'a Node option")

record 'a slist =
  head_s :: "'a Node option"
  length_s :: int

definition slist_ctor :: "'a slist" where
  "slist_ctor = \<lparr>head_s = None, length_s = 0\<rparr>"

definition move_ctor_s :: "'a slist \<Rightarrow> 'a slist \<times> 'a slist" where
  "move_ctor_s list =
     (\<lparr>head_s = head_s list, length_s = length_s list\<rparr>, \<lparr>head_s = None, length_s = 0\<rparr>)"

text \<open>
  \<open>while (cur->next != nullptr) cur = cur->next.get(); cur->next = std::move(newNode);\<close>
\<close>

fun link_last :: "'a Node \<Rightarrow> 'a Node \<Rightarrow> 'a Node" where
  "link_last (Node v None) newNode = Node v (Some newNode)"
| "link_last (Node v (Some n)) newNode = Node v (Some (link_last n newNode))"

definition push_back_s :: "'a \<Rightarrow> 'a slist \<Rightarrow> (unit, 'a slist) outcome" where
  "push_back_s x l =
     (let newNode = Node x None in
      case head_s l of
        None \<Rightarrow> Returns () (l\<lparr>head_s := Some newNode, length_s := length_s l + 1\<rparr>)
      | Some h \<Rightarrow> Returns () (l\<lparr>head_s := Some (link_last h newNode), length_s := length_s l + 1\<rparr>))"

fun print_loop_s :: "('a \<Rightarrow> string) \<Rightarrow> 'a Node option \<Rightarrow> string \<Rightarrow> string" where
  "print_loop_s shw None out = out"
| "print_loop_s shw (Some (Node v nx)) out = print_loop_s shw nx (out @ shw v @ '' '')"

definition print_s :: "('a \<Rightarrow> string) \<Rightarrow> 'a slist \<Rightarrow> (string, 'a slist) outcome" where
  "print_s shw l = Returns (print_loop_s shw (head_s l) [] @ [CHR 0x0A]) l"

definition size_s :: "'a slist \<Rightarrow> int" where
  "size_s l = length_s l"

text \<open>
  \<open>while (cnt < lim) { cur = cur->next.get(); cnt++; }\<close> followed by an access through
  \<open>cur\<close>, which \<open>f\<close> stands for: \<open>f\<close> returns the node that replaces \<open>*cur\<close>. A
  null \<open>cur\<close> is dereferenced by the next round or by the access after the loop, so the
  walk is undefined as soon as \<open>cur->next\<close> is null.
\<close>

function update_at :: "int \<Rightarrow> int \<Rightarrow> ('a Node \<Rightarrow> 'a Node option) \<Rightarrow> 'a Node \<Rightarrow> 'a Node option" where
  "update_at cnt lim f cur =
     (if cnt < lim then
        (case next_n cur of
           None \<Rightarrow> None
         | Some n \<Rightarrow>
             (case update_at (cnt + 1) lim f n of
                None \<Rightarrow> None
              | Some n' \<Rightarrow> Some (Node (value_n cur) (Some n'))))
      else f cur)"
  by pat_completeness auto
termination
  by (relation "measure (\<lambda>(cnt, lim, f, cur). nat (lim - cnt))") auto

declare update_at.simps [simp del]

function walk_s :: "int \<Rightarrow> int \<Rightarrow> 'a Node \<Rightarrow> 'a Node option" where
  "walk_s cnt lim cur =
     (if cnt < lim then
        (case next_n cur of
           None \<Rightarrow> None
         | Some n \<Rightarrow> walk_s (cnt + 1) lim n)
      else Some cur)"
  by pat_completeness auto
termination
  by (relation "measure (\<lambda>(cnt, lim, cur). nat (lim - cnt))") auto

declare walk_s.simps [simp del]

definition at_s :: "int \<Rightarrow> 'a slist \<Rightarrow> ('a, 'a slist) outcome" where
  "at_s index l =
     (if index < 0 \<or> index \<ge> length_s l then Throws out_of_range l
      else
        (case head_s l of
           None \<Rightarrow> Undefined
         | Some h \<Rightarrow>
             (case walk_s 0 index h of
                None \<Rightarrow> Undefined
              | Some cur \<Rightarrow> Returns (value_n cur) l)))"

definition assign_at_s :: "int \<Rightarrow> 'a \<Rightarrow> 'a slist \<Rightarrow> (unit, 'a slist) outcome" where
  "assign_at_s index x l =
     (if index < 0 \<or> index \<ge> length_s l then Throws out_of_range l
      else
        (case head_s l of
           None \<Rightarrow> Undefined
         | Some h \<Rightarrow>
             (case update_at 0 index (\<lambda>cur. Some (Node x (next_n cur))) h of
                None \<Rightarrow> Undefined
              | Some h' \<Rightarrow> Returns () (l\<lparr>head_s := Some h'\<rparr>))))"

definition insert_s :: "'a \<Rightarrow> int \<Rightarrow> 'a slist \<Rightarrow> (unit, 'a slist) outcome" where
  "insert_s x position l =
     (if position > length_s l \<or> position < 0 then Throws out_of_range l
      else if position = 0 then
        Returns () (l\<lparr>head_s := Some (Node x (head_s l)), length_s := length_s l + 1\<rparr>)
      else
        (case head_s l of
           None \<Rightarrow> Undefined
         | Some h \<Rightarrow>
             (case update_at 0 (position - 1)
                     (\<lambda>cur. Some (Node (value_n cur) (Some (Node x (next_n cur))))) h of
                None \<Rightarrow> Undefined
              | Some h' \<Rightarrow> Returns () (l\<lparr>head_s := Some h', length_s := length_s l + 1\<rparr>))))"

definition erase_s :: "int \<Rightarrow> 'a slist \<Rightarrow> (unit, 'a slist) outcome" where
  "erase_s position l =
     (if position \<ge> length_s l \<or> position < 0 then Throws out_of_range l
      else if position = 0 then
        (case head_s l of
           None \<Rightarrow> Undefined
         | Some h \<Rightarrow> Returns () (l\<lparr>head_s := next_n h, length_s := length_s l - 1\<rparr>))
      else
        (case head_s l of
           None \<Rightarrow> Undefined
         | Some h \<Rightarrow>
             (case update_at 0 (position - 1)
                     (\<lambda>cur. case next_n cur of
                               None \<Rightarrow> None
                             | Some erased \<Rightarrow> Some (Node (value_n cur) (next_n erased))) h of
                None \<Rightarrow> Undefined
              | Some h' \<Rightarrow> Returns () (l\<lparr>head_s := Some h', length_s := length_s l - 1\<rparr>))))"

definition move_assign_s ::
  "nat \<Rightarrow> nat \<Rightarrow> (nat \<Rightarrow> 'a slist) \<Rightarrow> (unit, nat \<Rightarrow> 'a slist) outcome" where
  "move_assign_s this list \<sigma> =
     (if this = list then Returns () \<sigma>
      else
        Returns ()
          (\<sigma>(this := \<lparr>head_s = head_s (\<sigma> list), length_s = length_s (\<sigma> list)\<rparr>,
             list := \<lparr>head_s = None, length_s = 0\<rparr>)))"

text \<open>\<open>while (cur != nullptr) { push_back(cur->value); cur = cur->next.get(); }\<close>\<close>

fun copy_loop_s :: "'a Node option \<Rightarrow> 'a slist \<Rightarrow> (unit, 'a slist) outcome" where
  "copy_loop_s None l = Returns () l"
| "copy_loop_s (Some (Node v nx)) l =
     (case push_back_s v l of
        Returns _ l' \<Rightarrow> copy_loop_s nx l'
      | Throws e s \<Rightarrow> Throws e s
      | Undefined \<Rightarrow> Undefined)"

definition copy_assign_s ::
  "nat \<Rightarrow> nat \<Rightarrow> (nat \<Rightarrow> 'a slist) \<Rightarrow> (unit, nat \<Rightarrow> 'a slist) outcome" where
  "copy_assign_s this list \<sigma> =
     (if this = list then Returns () \<sigma>
      else
        (case copy_loop_s (head_s (\<sigma> list)) ((\<sigma> this)\<lparr>head_s := None, length_s := 0\<rparr>) of
           Returns _ l \<Rightarrow> Returns () (\<sigma>(this := l))
         | Throws e l \<Rightarrow> Throws e (\<sigma>(this := l))
         | Undefined \<Rightarrow> Undefined))"

text \<open>
  \<open>Iterator\<close> holds a raw \<open>Node<T> *\<close>: the node it names, with the chain behind it,
  or \<open>nullptr\<close>.
\<close>

definition begin_s :: "'a slist \<Rightarrow> 'a Node option" where
  "begin_s l = head_s l"

definition end_s :: "'a slist \<Rightarrow> 'a Node option" where
  "end_s l = None"

definition incr_s :: "'a Node option \<Rightarrow> 'a Node option" where
  "incr_s ptr = (case ptr of None \<Rightarrow> None | Some n \<Rightarrow> next_n n)"

definition deref_s :: "'a Node option \<Rightarrow> 'a option" where
  "deref_s ptr = (case ptr of None \<Rightarrow> None | Some n \<Rightarrow> Some (value_n n))"

function iterate_s :: "'a Node option \<Rightarrow> 'a Node option \<Rightarrow> 'a list \<Rightarrow> 'a list option" where
  "iterate_s i e acc =
     (if i \<noteq> e then
        (case deref_s i of
           None \<Rightarrow> None
         | Some x \<Rightarrow> iterate_s (incr_s i) e (acc @ [x]))
      else Some acc)"
  by pat_completeness auto
termination
proof (relation "measure (\<lambda>(i, e, acc). size_option size i)")
  show "wf (measure (\<lambda>(i, e, acc). size_option size i))"
    by simp
next
  fix i e :: "'a Node option" and acc :: "'a list" and x :: 'a
  assume "i \<noteq> e" and "deref_s i = Some x"
  then obtain v nx where "i = Some (Node v nx)"
    by (cases i) (auto simp: deref_s_def intro: Node.exhaust)
  then show "((incr_s i, e, acc @ [x]), (i, e, acc)) \<in> measure (\<lambda>(i, e, acc). size_option size i)"
    by (cases nx) (simp_all add: incr_s_def)
qed

declare iterate_s.simps [simp del]

fun append_all_s :: "'a list \<Rightarrow> 'a slist \<Rightarrow> (unit, 'a slist) outcome" where
  "append_all_s [] l = Returns () l"
| "append_all_s (x # xs) l =
     (case push_back_s x l of
        Returns _ l' \<Rightarrow> append_all_s xs l'
      | Throws e s \<Rightarrow> Throws e s
      | Undefined \<Rightarrow> Undefined)"

fun elems_n :: "'a Node option \<Rightarrow> 'a list" where
  "elems_n None = []"
| "elems_n (Some (Node v nx)) = v # elems_n nx"

definition elems_s :: "'a slist \<Rightarrow> 'a list" where
  "elems_s l = elems_n (head_s l)"

definition inv_s :: "'a slist \<Rightarrow> bool" where
  "inv_s l = (length_s l = int (length (elems_s l)))"

section \<open>dlist (src/src/dlist.h)\<close>

text \<open>
  Nodes are shared: \<open>next\<close> is a \<open>std::shared_ptr\<close> and \<open>prev\<close> a \<open>std::weak_ptr\<close>
  to a node that another pointer owns. The nodes live in a store, a list of cells indexed
  by address; \<open>std::make_shared\<close> appends a cell, and a destroyed node leaves an empty
  cell that is never used again. A null pointer is \<open>None\<close>. Every node built by this class
  has one owning pointer at rest (\<open>head\<close> or the \<open>next\<close> of its predecessor), so the
  model destroys a node where that pointer is overwritten or reset.
\<close>

type_synonym addr = nat

record 'a DoubleNode =
  value_d :: 'a
  next_d :: "addr option"
  prev_d :: "addr option"

type_synonym 'a heap = "'a DoubleNode option list"

record dlist =
  head_d :: "addr option"
  length_d :: int

definition lookup :: "'a heap \<Rightarrow> addr \<Rightarrow> 'a DoubleNode option" where
  "lookup h a = (if a < length h then h ! a else None)"

text \<open>\<open>p->\<close>: undefined for a null pointer and for a pointer to a destroyed node.\<close>

definition deref :: "'a heap \<Rightarrow> addr option \<Rightarrow> 'a DoubleNode option" where
  "deref h p = (case p of None \<Rightarrow> None | Some a \<Rightarrow> lookup h a)"

definition make_shared :: "'a \<Rightarrow> 'a heap \<Rightarrow> addr \<times> 'a heap" where
  "make_shared x h = (length h, h @ [Some \<lparr>value_d = x, next_d = None, prev_d = None\<rparr>])"

definition set_next :: "addr option \<Rightarrow> addr option \<Rightarrow> 'a heap \<Rightarrow> 'a heap option" where
  "set_next p q h =
     (case p of
        None \<Rightarrow> None
      | Some a \<Rightarrow>
          (case lookup h a of None \<Rightarrow> None | Some n \<Rightarrow> Some (h[a := Some (n\<lparr>next_d := q\<rparr>)])))"

definition set_prev :: "addr option \<Rightarrow> addr option \<Rightarrow> 'a heap \<Rightarrow> 'a heap option" where
  "set_prev p q h =
     (case p of
        None \<Rightarrow> None
      | Some a \<Rightarrow>
          (case lookup h a of None \<Rightarrow> None | Some n \<Rightarrow> Some (h[a := Some (n\<lparr>prev_d := q\<rparr>)])))"

definition set_value :: "addr option \<Rightarrow> 'a \<Rightarrow> 'a heap \<Rightarrow> 'a heap option" where
  "set_value p x h =
     (case p of
        None \<Rightarrow> None
      | Some a \<Rightarrow>
          (case lookup h a of None \<Rightarrow> None | Some n \<Rightarrow> Some (h[a := Some (n\<lparr>value_d := x\<rparr>)])))"

definition destroy :: "addr \<Rightarrow> 'a heap \<Rightarrow> 'a heap" where
  "destroy a h = h[a := None]"

text \<open>\<open>weak_ptr::lock\<close>: the node a backward reference resolves to, if it is alive.\<close>

definition resolve :: "'a heap \<Rightarrow> addr option \<Rightarrow> addr option" where
  "resolve h p =
     (case p of
        None \<Rightarrow> None
      | Some a \<Rightarrow> (case lookup h a of None \<Rightarrow> None | Some n \<Rightarrow> Some a))"

text \<open>
  Dropping the owner of a chain (\<open>head.reset()\<close>, or assigning to \<open>head\<close>): the node is
  destroyed, and with it its own \<open>next\<close>, which owned the rest.
\<close>

function release :: "addr option \<Rightarrow> 'a heap \<Rightarrow> 'a heap option" where
  "release p h =
     (case p of
        None \<Rightarrow> Some h
      | Some a \<Rightarrow>
          (case lookup h a of
             None \<Rightarrow> None
           | Some n \<Rightarrow> release (next_d n) (destroy a h)))"
  by pat_completeness auto
termination
proof (relation "measure (\<lambda>(p, h). card {i. i < length h \<and> h ! i \<noteq> None})")
  show "wf (measure (\<lambda>(p, h). card {i. i < length h \<and> h ! i \<noteq> None}))"
    by simp
next
  fix p :: "addr option" and h :: "'a heap" and a :: addr and n :: "'a DoubleNode"
  assume "p = Some a" and live: "lookup h a = Some n"
  have a: "a < length h" "h ! a \<noteq> None"
    using live by (auto simp: lookup_def split: if_splits)
  have "{i. i < length (destroy a h) \<and> destroy a h ! i \<noteq> None}
      = {i. i < length h \<and> h ! i \<noteq> None} - {a}"
  proof (rule set_eqI)
    fix i
    show "(i \<in> {i. i < length (destroy a h) \<and> destroy a h ! i \<noteq> None})
        = (i \<in> {i. i < length h \<and> h ! i \<noteq> None} - {a})"
      using a by (cases "i = a") (simp_all add: destroy_def)
  qed
  moreover have "card ({i. i < length h \<and> h ! i \<noteq> None} - {a})
      < card {i. i < length h \<and> h ! i \<noteq> None}"
    by (rule card_Diff1_less) (use a in simp_all)
  ultimately have "card {i. i < length (destroy a h) \<and> destroy a h ! i \<noteq> None}
      < card {i. i < length h \<and> h ! i \<noteq> None}"
    by (simp only:)
  then show "((next_d n, destroy a h), (p, h)) \<in> measure (\<lambda>(p, h). card {i. i < length h \<and> h ! i \<noteq> None})"
    by (simp only: in_measure prod.case)
qed

declare release.simps [simp del]

definition dlist_ctor :: dlist where
  "dlist_ctor = \<lparr>head_d = None, length_d = 0\<rparr>"

definition move_ctor_d :: "dlist \<Rightarrow> dlist \<times> dlist" where
  "move_ctor_d list =
     (\<lparr>head_d = head_d list, length_d = length_d list\<rparr>, \<lparr>head_d = None, length_d = 0\<rparr>)"

text \<open>
  \<open>while (cur->next) cur = cur->next;\<close> The loop follows the links of the store and ends
  only at a node without successor: \<open>None\<close> is the loop that never ends, \<open>Some None\<close>
  undefined behaviour, \<open>Some (Some a)\<close> the node it stops at.
\<close>

partial_function (option) last_d :: "'a heap \<Rightarrow> addr \<Rightarrow> addr option option" where
  "last_d h cur =
     (case lookup h cur of
        None \<Rightarrow> Some None
      | Some n \<Rightarrow>
          (case next_d n of
             None \<Rightarrow> Some (Some cur)
           | Some nx \<Rightarrow> last_d h nx))"

declare last_d.simps [code]

definition push_back_d :: "'a \<Rightarrow> 'a heap \<times> dlist \<Rightarrow> (unit, 'a heap \<times> dlist) outcome option" where
  "push_back_d x s =
     (case s of (h, d) \<Rightarrow>
      (case make_shared x h of (newNode, h1) \<Rightarrow>
        (case head_d d of
           None \<Rightarrow> Some (Returns () (h1, d\<lparr>head_d := Some newNode, length_d := length_d d + 1\<rparr>))
         | Some front \<Rightarrow>
             (case last_d h1 front of
                None \<Rightarrow> None
              | Some None \<Rightarrow> Some Undefined
              | Some (Some cur) \<Rightarrow>
                  (case do {
                          h2 \<leftarrow> set_prev (Some newNode) (Some cur) h1;
                          set_next (Some cur) (Some newNode) h2
                        } of
                     None \<Rightarrow> Some Undefined
                   | Some h3 \<Rightarrow> Some (Returns () (h3, d\<lparr>length_d := length_d d + 1\<rparr>)))))))"

partial_function (option) print_loop_d ::
  "('a \<Rightarrow> string) \<Rightarrow> 'a heap \<Rightarrow> addr option \<Rightarrow> string \<Rightarrow> string option option" where
  "print_loop_d shw h cur out =
     (case cur of
        None \<Rightarrow> Some (Some out)
      | Some a \<Rightarrow>
          (case lookup h a of
             None \<Rightarrow> Some None
           | Some n \<Rightarrow> print_loop_d shw h (next_d n) (out @ shw (value_d n) @ '' '')))"

declare print_loop_d.simps [code]

definition print_d ::
  "('a \<Rightarrow> string) \<Rightarrow> 'a heap \<times> dlist \<Rightarrow> (string, 'a heap \<times> dlist) outcome option" where
  "print_d shw s =
     (case print_loop_d shw (fst s) (head_d (snd s)) [] of
        None \<Rightarrow> None
      | Some None \<Rightarrow> Some Undefined
      | Some (Some out) \<Rightarrow> Some (Returns (out @ [CHR 0x0A]) s))"

definition size_d :: "dlist \<Rightarrow> int" where
  "size_d d = length_d d"

text \<open>\<open>while (cnt < lim) { cur = cur->next; cnt++; }\<close>\<close>

function walk_d :: "'a heap \<Rightarrow> int \<Rightarrow> int \<Rightarrow> addr option \<Rightarrow> addr option option" where
  "walk_d h cnt lim cur =
     (if cnt < lim then
        (case deref h cur of
           None \<Rightarrow> None
         | Some n \<Rightarrow> walk_d h (cnt + 1) lim (next_d n))
      else Some cur)"
  by pat_completeness auto
termination
  by (relation "measure (\<lambda>(h, cnt, lim, cur). nat (lim - cnt))") auto

declare walk_d.simps [simp del]

definition at_d :: "int \<Rightarrow> 'a heap \<times> dlist \<Rightarrow> ('a, 'a heap \<times> dlist) outcome" where
  "at_d index s =
     (case s of (h, d) \<Rightarrow>
      if index < 0 \<or> index \<ge> length_d d then Throws out_of_range s
      else
        (case do { cur \<leftarrow> walk_d h 0 index (head_d d); deref h cur } of
           None \<Rightarrow> Undefined
         | Some n \<Rightarrow> Returns (value_d n) s))"

definition assign_at_d :: "int \<Rightarrow> 'a \<Rightarrow> 'a heap \<times> dlist \<Rightarrow> (unit, 'a heap \<times> dlist) outcome" where
  "assign_at_d index x s =
     (case s of (h, d) \<Rightarrow>
      if index < 0 \<or> index \<ge> length_d d then Throws out_of_range s
      else
        (case do { cur \<leftarrow> walk_d h 0 index (head_d d); set_value cur x h } of
           None \<Rightarrow> Undefined
         | Some h' \<Rightarrow> Returns () (h', d)))"

definition insert_d :: "'a \<Rightarrow> int \<Rightarrow> 'a heap \<times> dlist \<Rightarrow> (unit, 'a heap \<times> dlist) outcome" where
  "insert_d x position s =
     (case s of (h, d) \<Rightarrow>
      if position > length_d d \<or> position < 0 then Throws out_of_range s
      else
        (case make_shared x h of (newNode, h1) \<Rightarrow>
          if position = 0 then
            (case head_d d of
               None \<Rightarrow>
                 Returns () (h1, d\<lparr>head_d := Some newNode, length_d := length_d d + 1\<rparr>)
             | Some front \<Rightarrow>
                 (case do {
                         h2 \<leftarrow> set_prev (Some front) (Some newNode) h1;
                         set_next (Some newNode) (Some front) h2
                       } of
                    None \<Rightarrow> Undefined
                  | Some h3 \<Rightarrow>
                      Returns () (h3, d\<lparr>head_d := Some newNode, length_d := length_d d + 1\<rparr>)))
          else
            (case do {
                    cur \<leftarrow> walk_d h1 0 (position - 1) (head_d d);
                    c \<leftarrow> deref h1 cur;
                    h2 \<leftarrow> set_next (Some newNode) (next_d c) h1;
                    h3 \<leftarrow> (case next_d c of
                             None \<Rightarrow> Some h2
                           | Some nx \<Rightarrow> set_prev (Some nx) (Some newNode) h2);
                    h4 \<leftarrow> set_prev (Some newNode) cur h3;
                    set_next cur (Some newNode) h4
                  } of
               None \<Rightarrow> Undefined
             | Some h5 \<Rightarrow> Returns () (h5, d\<lparr>length_d := length_d d + 1\<rparr>))))"

definition erase_d :: "int \<Rightarrow> 'a heap \<times> dlist \<Rightarrow> (unit, 'a heap \<times> dlist) outcome" where
  "erase_d position s =
     (case s of (h, d) \<Rightarrow>
      if position \<ge> length_d d \<or> position < 0 then Throws out_of_range s
      else if position = 0 then
        (case head_d d of
           None \<Rightarrow> Undefined
         | Some front \<Rightarrow>
             (case lookup h front of
                None \<Rightarrow> Undefined
              | Some hn \<Rightarrow>
                  (case next_d hn of
                     None \<Rightarrow>
                       Returns () (destroy front h, d\<lparr>head_d := None, length_d := length_d d - 1\<rparr>)
                   | Some newHead \<Rightarrow>
                       (case set_prev (Some newHead) None h of
                          None \<Rightarrow> Undefined
                        | Some h1 \<Rightarrow>
                            Returns ()
                              (destroy front h1,
                               d\<lparr>head_d := Some newHead, length_d := length_d d - 1\<rparr>)))))
      else
        (case do {
                cur \<leftarrow> walk_d h 0 (position - 1) (head_d d);
                c \<leftarrow> deref h cur;
                (case next_d c of
                   None \<Rightarrow> None
                 | Some erased \<Rightarrow> do {
                     e \<leftarrow> lookup h erased;
                     h1 \<leftarrow> set_next cur (next_d e) h;
                     (case next_d e of
                        None \<Rightarrow> Some (destroy erased h1)
                      | Some nx \<Rightarrow> set_prev (Some nx) cur (destroy erased h1))
                   })
              } of
           None \<Rightarrow> Undefined
         | Some h2 \<Rightarrow> Returns () (h2, d\<lparr>length_d := length_d d - 1\<rparr>)))"

text \<open>
  The assignment operators, on a store of \<open>dlist\<close> objects beside the store of nodes.
\<close>

definition move_assign_d ::
  "nat \<Rightarrow> nat \<Rightarrow> 'a heap \<times> (nat \<Rightarrow> dlist) \<Rightarrow> (unit, 'a heap \<times> (nat \<Rightarrow> dlist)) outcome" where
  "move_assign_d this list s =
     (case s of (h, \<sigma>) \<Rightarrow>
      if this = list then Returns () s
      else
        (case release (head_d (\<sigma> this)) h of
           None \<Rightarrow> Undefined
         | Some h1 \<Rightarrow>
             Returns ()
               (h1, \<sigma>(this := \<lparr>head_d = head_d (\<sigma> list), length_d = length_d (\<sigma> list)\<rparr>,
                      list := \<lparr>head_d = None, length_d = 0\<rparr>))))"

text \<open>\<open>while (cur != nullptr) { push_back(cur->value); cur = cur->next; }\<close>\<close>

partial_function (option) copy_loop_d ::
  "addr option \<Rightarrow> 'a heap \<times> dlist \<Rightarrow> (unit, 'a heap \<times> dlist) outcome option" where
  "copy_loop_d cur s =
     (case cur of
        None \<Rightarrow> Some (Returns () s)
      | Some a \<Rightarrow>
          (case lookup (fst s) a of
             None \<Rightarrow> Some Undefined
           | Some n \<Rightarrow>
               (case push_back_d (value_d n) s of
                  None \<Rightarrow> None
                | Some (Returns _ s') \<Rightarrow>
                    (case lookup (fst s') a of
                       None \<Rightarrow> Some Undefined
                     | Some n' \<Rightarrow> copy_loop_d (next_d n') s')
                | Some (Throws e s') \<Rightarrow> Some (Throws e s')
                | Some Undefined \<Rightarrow> Some Undefined)))"

declare copy_loop_d.simps [code]

definition copy_assign_d ::
  "nat \<Rightarrow> nat \<Rightarrow> 'a heap \<times> (nat \<Rightarrow> dlist) \<Rightarrow> (unit, 'a heap \<times> (nat \<Rightarrow> dlist)) outcome option" where
  "copy_assign_d this list s =
     (case s of (h, \<sigma>) \<Rightarrow>
      if this = list then Some (Returns () s)
      else
        (case release (head_d (\<sigma> this)) h of
           None \<Rightarrow> Some Undefined
         | Some h1 \<Rightarrow>
             (case copy_loop_d (head_d (\<sigma> list)) (h1, (\<sigma> this)\<lparr>head_d := None, length_d := 0\<rparr>) of
                None \<Rightarrow> None
              | Some (Returns _ (h2, d)) \<Rightarrow> Some (Returns () (h2, \<sigma>(this := d)))
              | Some (Throws e (h2, d)) \<Rightarrow> Some (Throws e (h2, \<sigma>(this := d)))
              | Some Undefined \<Rightarrow> Some Undefined)))"

text \<open>\<open>Iterator\<close> holds a raw \<open>DoubleNode<T> *\<close>: an address, or \<open>nullptr\<close>.\<close>

definition begin_d :: "dlist \<Rightarrow> addr option" where
  "begin_d d = head_d d"

definition end_d :: "dlist \<Rightarrow> addr option" where
  "end_d d = None"

definition incr_d :: "'a heap \<Rightarrow> addr option \<Rightarrow> addr option option" where
  "incr_d h ptr =
     (case ptr of
        None \<Rightarrow> Some None
      | Some a \<Rightarrow> (case lookup h a of None \<Rightarrow> None | Some n \<Rightarrow> Some (next_d n)))"

definition deref_d :: "'a heap \<Rightarrow> addr option \<Rightarrow> 'a option" where
  "deref_d h ptr = (case deref h ptr of None \<Rightarrow> None | Some n \<Rightarrow> Some (value_d n))"

partial_function (option) iterate_d ::
  "'a heap \<Rightarrow> addr option \<Rightarrow> addr option \<Rightarrow> 'a list \<Rightarrow> 'a list option option" where
  "iterate_d h i e acc =
     (if i \<noteq> e then
        (case deref_d h i of
           None \<Rightarrow> Some None
         | Some x \<Rightarrow>
             (case incr_d h i of
                None \<Rightarrow> Some None
              | Some i' \<Rightarrow> iterate_d h i' e (acc @ [x])))
      else Some (Some acc))"

declare iterate_d.simps [code]

partial_function (option) append_all_d ::
  "'a list \<Rightarrow> 'a heap \<times> dlist \<Rightarrow> (unit, 'a heap \<times> dlist) outcome option" where
  "append_all_d xs s =
     (case xs of
        [] \<Rightarrow> Some (Returns () s)
      | x # xs' \<Rightarrow>
          (case push_back_d x s of
             None \<Rightarrow> None
           | Some (Returns _ s') \<Rightarrow> append_all_d xs' s'
           | Some (Throws e s') \<Rightarrow> Some (Throws e s')
           | Some Undefined \<Rightarrow> Some Undefined))"

declare append_all_d.simps [code]

text \<open>
  The data model of a \<open>dlist\<close>: \<open>as\<close> lists the addresses of its nodes from the head
  on. Each node is alive, its \<open>next\<close> is the following node (null for the last) and its
  \<open>prev\<close> is the node before it (null for the head).
\<close>

fun dpath :: "'a heap \<Rightarrow> addr option \<Rightarrow> addr option \<Rightarrow> addr list \<Rightarrow> addr option \<Rightarrow> bool" where
  "dpath h pr p [] q = (p = q)"
| "dpath h pr p (a # as) q =
     (p = Some a \<and>
      (case lookup h a of
         None \<Rightarrow> False
       | Some n \<Rightarrow> prev_d n = pr \<and> dpath h (Some a) (next_d n) as q))"

definition inv_d :: "'a heap \<Rightarrow> dlist \<Rightarrow> addr list \<Rightarrow> bool" where
  "inv_d h d as = (dpath h None (head_d d) as None \<and> distinct as \<and> length_d d = int (length as))"

definition elems_d :: "'a heap \<Rightarrow> addr list \<Rightarrow> 'a list" where
  "elems_d h as = map (\<lambda>a. value_d (the (lookup h a))) as"

text \<open>
  The invariant as the data model words it: every node of \<open>as\<close> that has a successor is
  what the successor's backward reference resolves to.
\<close>

definition back_links_ok :: "'a heap \<Rightarrow> addr list \<Rightarrow> bool" where
  "back_links_ok h as =
     list_all
       (\<lambda>n. case lookup h n of
               None \<Rightarrow> False
             | Some nd \<Rightarrow>
                 (case next_d nd of
                    None \<Rightarrow> True
                  | Some m \<Rightarrow>
                      (case lookup h m of
                         None \<Rightarrow> False
                       | Some md \<Rightarrow> resolve h (prev_d md) = Some n))) as"

section \<open>Mutating calls\<close>

text \<open>
  The calls that change a container, named so that a statement can range over all of
  them, and a call on the object at address \<open>this\<close> of a store of objects. The element of
  a call is given by its value: the lists copy it into the new node before they change
  anything, and the vector is called with an object outside its array.
\<close>

datatype 'a mutation = Push_back 'a | Insert 'a int | Erase int | Assign_at int 'a

fun mutate_v :: "'a mutation \<Rightarrow> 'a myvector \<Rightarrow> (unit, 'a myvector) outcome" where
  "mutate_v (Push_back x) v = push_back_v (Value x) v"
| "mutate_v (Insert x position) v = insert_v (Value x) position v"
| "mutate_v (Erase position) v = erase_v position v"
| "mutate_v (Assign_at index x) v = assign_at_v index x v"

fun mutate_s :: "'a mutation \<Rightarrow> 'a slist \<Rightarrow> (unit, 'a slist) outcome" where
  "mutate_s (Push_back x) l = push_back_s x l"
| "mutate_s (Insert x position) l = insert_s x position l"
| "mutate_s (Erase position) l = erase_s position l"
| "mutate_s (Assign_at index x) l = assign_at_s index x l"

fun mutate_d :: "'a mutation \<Rightarrow> 'a heap \<times> dlist \<Rightarrow> (unit, 'a heap \<times> dlist) outcome option" where
  "mutate_d (Push_back x) s = push_back_d x s"
| "mutate_d (Insert x position) s = Some (insert_d x position s)"
| "mutate_d (Erase position) s = Some (erase_d position s)"
| "mutate_d (Assign_at index x) s = Some (assign_at_d index x s)"

definition on_object ::
  "nat \<Rightarrow> ('s \<Rightarrow> ('r, 's) outcome) \<Rightarrow> (nat \<Rightarrow> 's) \<Rightarrow> ('r, nat \<Rightarrow> 's) outcome" where
  "on_object this f \<sigma> =
     (case f (\<sigma> this) of
        Returns r s \<Rightarrow> Returns r (\<sigma>(this := s))
      | Throws e s \<Rightarrow> Throws e (\<sigma>(this := s))
      | Undefined \<Rightarrow> Undefined)"

definition on_object_d ::
  "nat \<Rightarrow> ('h \<times> 's \<Rightarrow> ('r, 'h \<times> 's) outcome option) \<Rightarrow> 'h \<times> (nat \<Rightarrow> 's)
     \<Rightarrow> ('r, 'h \<times> (nat \<Rightarrow> 's)) outcome option" where
  "on_object_d this f s =
     (case s of (h, \<sigma>) \<Rightarrow>
      (case f (h, \<sigma> this) of
         None \<Rightarrow> None
       | Some (Returns r (h', d)) \<Rightarrow> Some (Returns r (h', \<sigma>(this := d)))
       | Some (Throws e (h', d)) \<Rightarrow> Some (Throws e (h', \<sigma>(this := d)))
       | Some Undefined \<Rightarrow> Some Undefined))"

section \<open>Sample states\<close>

text \<open>
  A vector, a singly linked and a doubly linked list that hold 10, 20 and 30, as three
  calls of \<open>push_back\<close> on a new container build them, and a store of objects of each
  kind whose object 0 is that container and whose other objects are new.
\<close>

definition sample_v :: "int myvector" where
  "sample_v = \<lparr>data = Array [Some 10, Some 20, Some 30, None], capacity = 4, length_v = 3\<rparr>"

definition sample_s :: "int slist" where
  "sample_s = \<lparr>head_s = Some (Node 10 (Some (Node 20 (Some (Node 30 None))))), length_s = 3\<rparr>"

definition sample_h :: "int heap" where
  "sample_h =
     [Some \<lparr>value_d = 10, next_d = Some 1, prev_d = None\<rparr>,
      Some \<lparr>value_d = 20, next_d = Some 2, prev_d = Some 0\<rparr>,
      Some \<lparr>value_d = 30, next_d = None, prev_d = Some 1\<rparr>]"

definition sample_d :: dlist where
  "sample_d = \<lparr>head_d = Some 0, length_d = 3\<rparr>"

definition sample_vs :: "nat \<Rightarrow> int myvector" where
  "sample_vs = (\<lambda>_. myvector_ctor)(0 := sample_v)"

definition sample_ss :: "nat \<Rightarrow> int slist" where
  "sample_ss = (\<lambda>_. slist_ctor)(0 := sample_s)"

definition sample_ds :: "nat \<Rightarrow> dlist" where
  "sample_ds = (\<lambda>_. dlist_ctor)(0 := sample_d)"

text \<open>The text \<open>print\<close> writes for a sequence: each element, then a space; then a newline.\<close>

definition line_of :: "('a \<Rightarrow> string) \<Rightarrow> 'a list \<Rightarrow> string" where
  "line_of shw xs = concat (map (\<lambda>x. shw x @ '' '') xs) @ [CHR 0x0A]"

section \<open>Properties of myvector\<close>

lemma copy_loop_cells:
  assumes "0 \<le> i" "i \<le> n" "n \<le> int (length cs)" "n \<le> int (length ds)"
    and "list_all (\<lambda>c. c \<noteq> None) (take (nat n) cs)"
  shows "copy_loop i n (Array cs) (Array ds)
       = Some (Array (take (nat i) ds @ drop (nat i) (take (nat n) cs) @ drop (nat n) ds))"
  using assms
proof (induction i n "Array cs" "Array ds" arbitrary: ds rule: copy_loop.induct)
  case (1 i n ds)
  show ?case
  proof (cases "i < n")
    case False
    with "1.prems" have "i = n" by simp
    then show ?thesis by (subst copy_loop.simps) simp
  next
    case True
    have len: "nat i < length cs" "nat i < length ds" "nat i < nat n"
      using True "1.prems" by auto
    from "1.prems"(5) len have "cs ! nat i \<noteq> None"
      by (simp add: list_all_length)
    then obtain x where x: "cs ! nat i = Some x" by auto
    have rd: "rd (Array cs) i = Some x"
      using x len "1.prems" by simp
    have wr: "wr (Array ds) i x = Some (Array (ds[nat i := Some x]))"
      using len "1.prems" by simp
    have ih: "copy_loop (i + 1) n (Array cs) (Array (ds[nat i := Some x]))
        = Some (Array (take (nat (i + 1)) (ds[nat i := Some x]) @ drop (nat (i + 1)) (take (nat n) cs)
            @ drop (nat n) (ds[nat i := Some x])))"
      using "1.hyps"[OF True rd wr] True "1.prems" by simp
    have s: "nat (i + 1) = Suc (nat i)"
      using "1.prems" by simp
    have a: "take (Suc (nat i)) (ds[nat i := Some x]) = take (nat i) ds @ [Some x]"
      using len by (simp add: take_Suc_conv_app_nth)
    have b: "drop (nat i) (take (nat n) cs) = Some x # drop (Suc (nat i)) (take (nat n) cs)"
      using len x by (simp add: Cons_nth_drop_Suc[symmetric])
    have c: "drop (nat n) (ds[nat i := Some x]) = drop (nat n) ds"
      using len by simp
    show ?thesis
      by (subst copy_loop.simps) (simp add: True rd wr ih s a b c del: rd.simps wr.simps)
  qed
qed

lemma copy_loop_fresh:
  assumes "0 \<le> n" "n \<le> int (length cs)" "n \<le> m"
    and "list_all (\<lambda>c. c \<noteq> None) (take (nat n) cs)"
  shows "copy_loop 0 n (Array cs) (new_array m)
       = Some (Array (take (nat n) cs @ replicate (nat m - nat n) None))"
  using copy_loop_cells[of 0 n cs "replicate (nat m) None"] assms
  by (simp add: new_array_def)

lemma copy_loop_none: "copy_loop 0 0 src dst = Some dst"
  by (subst copy_loop.simps) simp

lemma int32_id: "- (2 ^ 31) \<le> n \<Longrightarrow> n < 2 ^ 31 \<Longrightarrow> int32 n = n"
  by (simp add: int32_def)

lemma int32_wraps: "int32 (2 ^ 30 * 2) = - (2 ^ 31)"
  by (simp add: int32_def)

lemma resize_ok:
  assumes "inv_v v" "capacity v < 2 ^ 30"
  shows "\<exists>v'. resize v = Returns () v' \<and> inv_v v' \<and> elems_v v' = elems_v v
           \<and> capacity v' = 2 * capacity v \<and> length_v v' = length_v v"
proof (cases "data v")
  case Null
  with assms have "capacity v = 0" "length_v v = 0"
    by (auto simp: inv_v_def)
  then show ?thesis using Null
    by (simp add: resize_def int32_id copy_loop_none inv_v_def elems_v_def new_array_def)
next
  case (Array cs)
  with assms have a: "0 \<le> length_v v" "length_v v \<le> capacity v" "int (length cs) = capacity v"
      "list_all (\<lambda>c. c \<noteq> None) (take (nat (length_v v)) cs)"
    by (auto simp: inv_v_def)
  have "copy_loop 0 (length_v v) (Array cs) (new_array (capacity v * 2))
      = Some (Array (take (nat (length_v v)) cs @ replicate (nat (capacity v * 2) - nat (length_v v)) None))"
    using a by (intro copy_loop_fresh) auto
  moreover have "int32 (capacity v * 2) = capacity v * 2"
    using a assms(2) by (intro int32_id) auto
  ultimately show ?thesis using a Array
    by (simp add: resize_def inv_v_def elems_v_def)
qed

lemma push_back_v_ok:
  assumes "inv_v v" "0 < capacity v" "length_v v < 2 ^ 30"
  shows "\<exists>v'. push_back_v (Value x) v = Returns () v' \<and> inv_v v' \<and> elems_v v' = elems_v v @ [x]
           \<and> capacity v' = (if length_v v = capacity v then 2 * capacity v else capacity v)
           \<and> length_v v' = length_v v + 1"
proof -
  have "\<exists>v1. (if length_v v = capacity v then resize v else Returns () v) = Returns () v1
      \<and> inv_v v1 \<and> elems_v v1 = elems_v v \<and> length_v v1 = length_v v
      \<and> capacity v1 = (if length_v v = capacity v then 2 * capacity v else capacity v)"
  proof (cases "length_v v = capacity v")
    case True
    then show ?thesis using resize_ok[OF assms(1)] assms(3) by auto
  next
    case False
    then show ?thesis using assms(1) by simp
  qed
  then obtain v1 where v1: "(if length_v v = capacity v then resize v else Returns () v) = Returns () v1"
      "inv_v v1" "elems_v v1 = elems_v v" "length_v v1 = length_v v"
      "capacity v1 = (if length_v v = capacity v then 2 * capacity v else capacity v)"
    by blast
  have lt: "length_v v1 < capacity v1"
    using v1 assms by (auto simp: inv_v_def split: if_splits)
  then obtain cs where cs: "data v1 = Array cs"
    using v1(2) by (cases "data v1") (auto simp: inv_v_def)
  have b: "0 \<le> length_v v1" "int (length cs) = capacity v1"
      "list_all (\<lambda>c. c \<noteq> None) (take (nat (length_v v1)) cs)"
    using v1(2) cs by (auto simp: inv_v_def)
  have n: "nat (length_v v1) < length cs"
    using lt b by simp
  have t: "take (nat (length_v v1 + 1)) (cs[nat (length_v v1) := Some x])
      = take (nat (length_v v1)) cs @ [Some x]"
    using n b by (simp add: nat_add_distrib take_Suc_conv_app_nth)
  show ?thesis
    unfolding push_back_v_def v1(1)
    using cs b lt n t v1(3,4,5)
    by (simp add: inv_v_def elems_v_def)
qed

lemma shift_right_cells:
  assumes "p \<le> i" "i < length cs" "list_all (\<lambda>c. c \<noteq> None) (take i cs)"
  shows "shift_right (int i) (int p) (Array cs)
       = Some (Array (take (Suc p) cs @ drop p (take i cs) @ drop (Suc i) cs))"
  using assms
proof (induction "i - p" arbitrary: i cs)
  case 0
  then have "i = p" by simp
  then show ?case using 0
    by (subst shift_right.simps) (simp add: Cons_nth_drop_Suc take_Suc_conv_app_nth)
next
  case (Suc k)
  then obtain j where j: "i = Suc j" "p \<le> j" "k = j - p"
    by (cases i) auto
  have "cs ! j \<noteq> None"
    using Suc.prems j by (simp add: list_all_length)
  then obtain x where x: "cs ! j = Some x" by auto
  have rd: "rd (Array cs) (int i - 1) = Some x"
    using x j Suc.prems by simp
  have wr: "wr (Array cs) (int i) x = Some (Array (cs[i := Some x]))"
    using Suc.prems by simp
  have all: "list_all (\<lambda>c. c \<noteq> None) (take j (cs[i := Some x]))"
    using Suc.prems j by (simp add: list_all_length)
  have ih: "shift_right (int j) (int p) (Array (cs[i := Some x]))
      = Some (Array (take (Suc p) (cs[i := Some x]) @ drop p (take j (cs[i := Some x]))
          @ drop (Suc j) (cs[i := Some x])))"
    using Suc.hyps(1)[of j "cs[i := Some x]"] j Suc.prems all by simp
  have a: "take (Suc p) (cs[i := Some x]) = take (Suc p) cs"
    using j by simp
  have b: "take j (cs[i := Some x]) = take j cs"
    using j by simp
  have c: "drop (Suc j) (cs[i := Some x]) = Some x # drop (Suc i) cs"
    using j Suc.prems by (simp add: drop_update_cancel Cons_nth_drop_Suc[symmetric] del: drop_Suc_Cons)
  have d: "drop p (take i cs) = drop p (take j cs) @ [Some x]"
    using j x Suc.prems by (simp add: take_Suc_conv_app_nth)
  have ij: "int i - 1 = int j" using j by simp
  show ?case
    apply (subst shift_right.simps)
    using j rd wr ih a b c d ij
    by (simp del: rd.simps wr.simps)
qed

lemma shift_left_cells:
  assumes "i < n" "n \<le> length cs" "list_all (\<lambda>c. c \<noteq> None) (take n cs)"
  shows "shift_left (int i) (int n) (Array cs)
       = Some (Array (take i cs @ drop (Suc i) (take n cs) @ drop (n - 1) cs))"
  using assms
proof (induction "n - i" arbitrary: i cs)
  case 0
  then show ?case by simp
next
  case (Suc k)
  show ?case
  proof (cases "Suc i < n")
    case False
    with Suc.prems have n: "n = Suc i" by simp
    show ?thesis
      by (subst shift_left.simps) (simp add: n)
  next
    case True
    have "cs ! Suc i \<noteq> None"
      using Suc.prems True by (simp add: list_all_length)
    then obtain x where x: "cs ! Suc i = Some x" by auto
    have rd: "rd (Array cs) (int i + 1) = Some x"
      using x True Suc.prems by (simp add: nat_add_distrib)
    have wr: "wr (Array cs) (int i) x = Some (Array (cs[i := Some x]))"
      using Suc.prems by simp
    have all: "list_all (\<lambda>c. c \<noteq> None) (take n (cs[i := Some x]))"
      using Suc.prems by (simp add: list_all_length nth_list_update)
    have ih: "shift_left (int (Suc i)) (int n) (Array (cs[i := Some x]))
        = Some (Array (take (Suc i) (cs[i := Some x]) @ drop (Suc (Suc i)) (take n (cs[i := Some x]))
            @ drop (n - 1) (cs[i := Some x])))"
      using Suc.hyps(1)[of "Suc i" "cs[i := Some x]"] Suc.hyps(2) True Suc.prems all by simp
    have a: "take (Suc i) (cs[i := Some x]) = take i cs @ [Some x]"
      using Suc.prems by (simp add: take_Suc_conv_app_nth)
    have b: "drop (Suc (Suc i)) (take n (cs[i := Some x])) = drop (Suc (Suc i)) (take n cs)"
      by (simp add: take_update_swap drop_update_cancel del: drop_Suc)
    have c: "drop (n - 1) (cs[i := Some x]) = drop (n - 1) cs"
      using True by simp
    have d: "drop (Suc i) (take n cs) = Some x # drop (Suc (Suc i)) (take n cs)"
      using True x Suc.prems by (simp add: Cons_nth_drop_Suc[symmetric] del: drop_Suc)
    have lt: "int i < int n - 1" using True by simp
    have ii: "int i + 1 = int (Suc i)" by simp
    have "shift_left (int i) (int n) (Array cs)
        = shift_left (int i + 1) (int n) (Array (cs[i := Some x]))"
      by (subst shift_left.simps) (simp add: lt rd wr del: rd.simps wr.simps)
    also have "\<dots> = Some (Array (take (Suc i) (cs[i := Some x])
        @ drop (Suc (Suc i)) (take n (cs[i := Some x])) @ drop (n - 1) (cs[i := Some x])))"
      by (simp only: ii ih)
    also have "\<dots> = Some (Array (take i cs @ drop (Suc i) (take n cs) @ drop (n - 1) cs))"
      by (simp only: a b c d append_assoc append_Cons append_Nil)
    finally show ?thesis .
  qed
qed

lemma inv_v_ArrayD:
  assumes "inv_v v" "data v = Array cs"
  shows "0 \<le> length_v v" "length_v v \<le> capacity v" "int (length cs) = capacity v"
    "list_all (\<lambda>c. c \<noteq> None) (take (nat (length_v v)) cs)"
  using assms by (auto simp: inv_v_def)

lemma length_elems_v: "inv_v v \<Longrightarrow> int (length (elems_v v)) = length_v v"
  by (cases "data v") (auto simp: inv_v_def elems_v_def)

lemma insert_v_ok:
  assumes "inv_v v" "0 < capacity v" "0 \<le> position" "position \<le> length_v v"
    "length_v v < 2 ^ 30"
  shows "\<exists>v'. insert_v (Value x) position v = Returns () v' \<and> inv_v v'
           \<and> elems_v v' = take (nat position) (elems_v v) @ [x] @ drop (nat position) (elems_v v)
           \<and> capacity v' = (if length_v v = capacity v then 2 * capacity v else capacity v)
           \<and> length_v v' = length_v v + 1"
proof -
  have "\<exists>v1. (if length_v v = capacity v then resize v else Returns () v) = Returns () v1
      \<and> inv_v v1 \<and> elems_v v1 = elems_v v \<and> length_v v1 = length_v v
      \<and> capacity v1 = (if length_v v = capacity v then 2 * capacity v else capacity v)"
  proof (cases "length_v v = capacity v")
    case True
    then show ?thesis using resize_ok[OF assms(1)] assms(5) by auto
  next
    case False
    then show ?thesis using assms(1) by simp
  qed
  then obtain v1 where v1: "(if length_v v = capacity v then resize v else Returns () v) = Returns () v1"
      "inv_v v1" "elems_v v1 = elems_v v" "length_v v1 = length_v v"
      "capacity v1 = (if length_v v = capacity v then 2 * capacity v else capacity v)"
    by blast
  have lt: "length_v v1 < capacity v1"
    using v1 assms by (auto simp: inv_v_def split: if_splits)
  then obtain cs where cs: "data v1 = Array cs"
    using v1(2) by (cases "data v1") (auto simp: inv_v_def)
  note b = inv_v_ArrayD[OF v1(2) cs]
  define n where "n = nat (length_v v1)"
  define p where "p = nat position"
  have np: "p \<le> n" "n < length cs" "length_v v1 = int n" "position = int p"
    using assms v1(4) b lt by (auto simp: n_def p_def)
  have all: "list_all (\<lambda>c. c \<noteq> None) (take n cs)"
    using b by (simp add: n_def)
  let ?d = "take (Suc p) cs @ drop p (take n cs) @ drop (Suc n) cs"
  have sh: "shift_right (length_v v1) position (data v1) = Some (Array ?d)"
    unfolding cs np(3,4) using np(1,2) all by (rule shift_right_cells)
  have lend: "length ?d = length cs"
    using np by simp
  have wr: "wr (Array ?d) position x = Some (Array (?d[p := Some x]))"
    using np lend by (simp del: length_append)
  have upd: "?d[p := Some x] = take p cs @ [Some x] @ drop p (take n cs) @ drop (Suc n) cs"
    using np by (simp add: list_update_append take_Suc_conv_app_nth)
  have res: "insert_v (Value x) position v
      = Returns () (v1\<lparr>data := Array (take p cs @ [Some x] @ drop p (take n cs) @ drop (Suc n) cs),
                        length_v := length_v v1 + 1\<rparr>)"
    unfolding insert_v_def v1(1) using assms(3,4) sh wr upd
    by (simp del: rd.simps wr.simps)
  have tk: "take (Suc n) (take p cs @ [Some x] @ drop p (take n cs) @ drop (Suc n) cs)
      = take p cs @ [Some x] @ drop p (take n cs)"
  proof -
    have len: "length (take p cs @ [Some x] @ drop p (take n cs)) = Suc n"
      using np by simp
    have "take (length (take p cs @ [Some x] @ drop p (take n cs)))
        ((take p cs @ [Some x] @ drop p (take n cs)) @ drop (Suc n) cs)
        = take p cs @ [Some x] @ drop p (take n cs)"
      by (rule append_eq_conv_conj[THEN iffD1, THEN conjunct1, symmetric]) (rule refl)
    then show ?thesis
      by (simp only: len append_assoc)
  qed
  have el: "elems_v v = map the (take n cs)"
    using v1(3) cs by (simp add: elems_v_def n_def)
  have all': "list_all (\<lambda>c. c \<noteq> None) (take p cs @ [Some x] @ drop p (take n cs))"
  proof -
    have "set (take p cs) \<subseteq> set (take n cs)"
      using np by (simp add: set_take_subset_set_take)
    moreover have "set (drop p (take n cs)) \<subseteq> set (take n cs)"
      by (rule set_drop_subset)
    ultimately show ?thesis
      using all by (auto simp: list_all_iff)
  qed
  have n1: "nat (length_v v1 + 1) = Suc n"
    using np by simp
  show ?thesis
    unfolding res
    using tk el all' n1 np b(3) v1(4,5) lt
    by (simp add: inv_v_def elems_v_def take_map drop_map drop_take del: take_append)
qed

lemma erase_v_ok:
  assumes "inv_v v" "0 \<le> position" "position < length_v v"
  shows "\<exists>v'. erase_v position v = Returns () v' \<and> inv_v v'
           \<and> elems_v v' = take (nat position) (elems_v v) @ drop (Suc (nat position)) (elems_v v)
           \<and> capacity v' = capacity v \<and> length_v v' = length_v v - 1"
proof -
  obtain cs where cs: "data v = Array cs"
    using assms by (cases "data v") (auto simp: inv_v_def)
  note b = inv_v_ArrayD[OF assms(1) cs]
  define n where "n = nat (length_v v)"
  define p where "p = nat position"
  have np: "p < n" "n \<le> length cs" "length_v v = int n" "position = int p"
    using assms b by (auto simp: n_def p_def)
  have all: "list_all (\<lambda>c. c \<noteq> None) (take n cs)"
    using b by (simp add: n_def)
  let ?d = "take p cs @ drop (Suc p) (take n cs) @ drop (n - 1) cs"
  have sh: "shift_left position (length_v v) (data v) = Some (Array ?d)"
    unfolding cs np(3,4) using np(1,2) all by (rule shift_left_cells)
  have res: "erase_v position v = Returns () (v\<lparr>data := Array ?d, length_v := length_v v - 1\<rparr>)"
    unfolding erase_v_def using assms(2,3) sh by simp
  have tk: "take (n - 1) ?d = take p cs @ drop (Suc p) (take n cs)"
  proof -
    have len: "length (take p cs @ drop (Suc p) (take n cs)) = n - 1"
      using np by simp
    have "take (length (take p cs @ drop (Suc p) (take n cs)))
        ((take p cs @ drop (Suc p) (take n cs)) @ drop (n - 1) cs)
        = take p cs @ drop (Suc p) (take n cs)"
      by (rule append_eq_conv_conj[THEN iffD1, THEN conjunct1, symmetric]) (rule refl)
    then show ?thesis
      by (simp only: len append_assoc)
  qed
  have all': "list_all (\<lambda>c. c \<noteq> None) (take p cs @ drop (Suc p) (take n cs))"
  proof -
    have "set (take p cs) \<subseteq> set (take n cs)"
      using np by (simp add: set_take_subset_set_take)
    moreover have "set (drop (Suc p) (take n cs)) \<subseteq> set (take n cs)"
      by (rule set_drop_subset)
    ultimately show ?thesis
      using all by (auto simp: list_all_iff)
  qed
  have lend: "length ?d = length cs"
    using np by simp
  have n1: "nat (length_v v - 1) = n - 1"
    using np by simp
  have el: "elems_v v = map the (take n cs)"
    using cs by (simp add: elems_v_def n_def)
  have tp: "take p (take n cs) = take p cs"
    using np by simp
  show ?thesis
    unfolding res
    using tk el all' n1 np b(2,3) lend tp
    by (simp add: inv_v_def elems_v_def take_map drop_map del: take_append length_append drop_Suc)
qed

lemma rd_elems_v:
  assumes "inv_v v" "0 \<le> i" "i < length_v v"
  shows "rd (data v) i = Some (elems_v v ! nat i)"
proof -
  obtain cs where cs: "data v = Array cs"
    using assms by (cases "data v") (auto simp: inv_v_def)
  note b = inv_v_ArrayD[OF assms(1) cs]
  have "cs ! nat i \<noteq> None"
    using b(4) assms b by (simp add: list_all_length)
  then show ?thesis
    using cs assms b by (auto simp: elems_v_def)
qed

lemma at_v_ok:
  assumes "inv_v v" "0 \<le> index" "index < length_v v"
  shows "at_v index v = Returns (elems_v v ! nat index) v"
  using assms rd_elems_v[OF assms] by (simp add: at_v_def)

lemma assign_at_v_ok:
  assumes "inv_v v" "0 \<le> index" "index < length_v v"
  shows "\<exists>v'. assign_at_v index x v = Returns () v' \<and> inv_v v'
           \<and> elems_v v' = (elems_v v)[nat index := x]
           \<and> capacity v' = capacity v \<and> length_v v' = length_v v"
proof -
  obtain cs where cs: "data v = Array cs"
    using assms by (cases "data v") (auto simp: inv_v_def)
  note b = inv_v_ArrayD[OF assms(1) cs]
  have "list_all (\<lambda>c. c \<noteq> None) (take (nat (length_v v)) (cs[nat index := Some x]))"
    using b assms by (auto simp: list_all_length nth_list_update)
  then show ?thesis
    using cs assms b
    by (simp add: assign_at_v_def inv_v_def elems_v_def take_update_swap map_update)
qed

lemma iterate_v_from:
  assumes "inv_v v" "i \<le> length (elems_v v)"
  shows "iterate_v v (int i) (length_v v) acc = Some (acc @ drop i (elems_v v))"
  using assms
proof (induction "length (elems_v v) - i" arbitrary: i acc)
  case 0
  then have "int i = length_v v"
    using length_elems_v[of v] by simp
  then show ?case using 0
    by (subst iterate_v.simps) simp
next
  case (Suc k)
  have lt: "int i < length_v v" "i < length (elems_v v)"
    using Suc.hyps(2) length_elems_v[OF Suc.prems(1)] by auto
  have rd: "deref_v v (int i) = Some (elems_v v ! i)"
    using rd_elems_v[OF Suc.prems(1), of "int i"] lt by (simp add: deref_v_def)
  have ih: "iterate_v v (int (Suc i)) (length_v v) (acc @ [elems_v v ! i])
      = Some ((acc @ [elems_v v ! i]) @ drop (Suc i) (elems_v v))"
    using Suc.hyps(1)[of "Suc i"] Suc.hyps(2) Suc.prems lt by simp
  have ii: "incr_v (int i) = int (Suc i)"
    by (simp add: incr_v_def)
  have "iterate_v v (int i) (length_v v) acc
      = iterate_v v (incr_v (int i)) (length_v v) (acc @ [elems_v v ! i])"
    using lt by (subst iterate_v.simps) (simp add: rd)
  also have "\<dots> = Some ((acc @ [elems_v v ! i]) @ drop (Suc i) (elems_v v))"
    by (simp only: ii ih)
  also have "\<dots> = Some (acc @ drop i (elems_v v))"
    using lt by (simp add: Cons_nth_drop_Suc)
  finally show ?case .
qed

lemma iterate_v_ok:
  assumes "inv_v v"
  shows "iterate_v v (begin_v v) (end_v v) [] = Some (elems_v v)"
  using iterate_v_from[OF assms, of 0 "[]"] by (simp add: begin_v_def end_v_def)

lemma print_loop_v_from:
  assumes "inv_v v" "i \<le> length (elems_v v)"
  shows "print_loop_v shw (int i) v out
       = Some (out @ concat (map (\<lambda>x. shw x @ '' '') (drop i (elems_v v))))"
  using assms
proof (induction "length (elems_v v) - i" arbitrary: i out)
  case 0
  then have "int i = length_v v"
    using length_elems_v[of v] by simp
  then show ?case using 0
    by (subst print_loop_v.simps) simp
next
  case (Suc k)
  have lt: "int i < length_v v" "i < length (elems_v v)"
    using Suc.hyps(2) length_elems_v[OF Suc.prems(1)] by auto
  have rd: "rd (data v) (int i) = Some (elems_v v ! i)"
    using rd_elems_v[OF Suc.prems(1), of "int i"] lt by simp
  have ih: "print_loop_v shw (int (Suc i)) v (out @ shw (elems_v v ! i) @ '' '')
      = Some ((out @ shw (elems_v v ! i) @ '' '')
          @ concat (map (\<lambda>x. shw x @ '' '') (drop (Suc i) (elems_v v))))"
    using Suc.hyps(1)[of "Suc i"] Suc.hyps(2) Suc.prems lt by simp
  have ii: "int i + 1 = int (Suc i)"
    by simp
  have "print_loop_v shw (int i) v out
      = print_loop_v shw (int i + 1) v (out @ shw (elems_v v ! i) @ '' '')"
    using lt by (subst print_loop_v.simps) (simp add: rd)
  also have "\<dots> = Some ((out @ shw (elems_v v ! i) @ '' '')
          @ concat (map (\<lambda>x. shw x @ '' '') (drop (Suc i) (elems_v v))))"
    by (simp only: ii ih)
  also have "\<dots> = Some (out @ concat (map (\<lambda>x. shw x @ '' '') (drop i (elems_v v))))"
    using lt by (simp add: Cons_nth_drop_Suc[symmetric])
  finally show ?case .
qed

lemma print_v_ok:
  assumes "inv_v v"
  shows "print_v shw v = Returns (concat (map (\<lambda>x. shw x @ '' '') (elems_v v)) @ [CHR 0x0A]) v"
  using print_loop_v_from[OF assms, of 0 shw "[]"] by (simp add: print_v_def)

lemma copy_assign_v_ok:
  assumes "inv_v (\<sigma> vect)" "this \<noteq> vect"
  shows "\<exists>b. copy_assign_v this vect \<sigma> = Returns () (\<sigma>(this := b)) \<and> inv_v b
           \<and> elems_v b = elems_v (\<sigma> vect) \<and> capacity b = capacity (\<sigma> vect)
           \<and> length_v b = length_v (\<sigma> vect)"
proof (cases "data (\<sigma> vect)")
  case Null
  with assms have "capacity (\<sigma> vect) = 0" "length_v (\<sigma> vect) = 0"
    by (auto simp: inv_v_def)
  then show ?thesis using Null assms(2)
    by (intro exI[of _ "\<lparr>data = Array [], capacity = 0, length_v = 0\<rparr>"])
      (simp add: copy_assign_v_def copy_loop_none inv_v_def elems_v_def new_array_def)
next
  case (Array cs)
  note a = inv_v_ArrayD[OF assms(1) Array]
  have "copy_loop 0 (length_v (\<sigma> vect)) (Array cs) (new_array (capacity (\<sigma> vect)))
      = Some (Array (take (nat (length_v (\<sigma> vect))) cs
          @ replicate (nat (capacity (\<sigma> vect)) - nat (length_v (\<sigma> vect))) None))"
    using a by (intro copy_loop_fresh) auto
  then show ?thesis using a Array assms(2)
    by (intro exI[of _ "\<lparr>data = Array (take (nat (length_v (\<sigma> vect))) cs
          @ replicate (nat (capacity (\<sigma> vect)) - nat (length_v (\<sigma> vect))) None),
        capacity = capacity (\<sigma> vect), length_v = length_v (\<sigma> vect)\<rparr>"])
      (simp add: copy_assign_v_def inv_v_def elems_v_def)
qed

lemma append_all_v_ok:
  assumes "inv_v v" "0 < capacity v" "length_v v + int (length xs) \<le> 2 ^ 30"
  shows "\<exists>v'. append_all_v xs v = Returns () v' \<and> inv_v v' \<and> 0 < capacity v'
           \<and> elems_v v' = elems_v v @ xs"
  using assms
proof (induction xs arbitrary: v)
  case Nil
  then show ?case by simp
next
  case (Cons x xs)
  have "length_v v < 2 ^ 30"
    using Cons.prems(3) by simp
  from push_back_v_ok[OF Cons.prems(1,2) this, of x]
  obtain v1 where v1: "push_back_v (Value x) v = Returns () v1" "inv_v v1"
      "elems_v v1 = elems_v v @ [x]"
      "capacity v1 = (if length_v v = capacity v then 2 * capacity v else capacity v)"
      "length_v v1 = length_v v + 1"
    by blast
  have c: "0 < capacity v1"
    using v1(4) Cons.prems(2) by (simp split: if_splits)
  have "length_v v1 + int (length xs) \<le> 2 ^ 30"
    using v1(5) Cons.prems(3) by simp
  from Cons.IH[OF v1(2) c this] v1(1,3) show ?case
    by auto
qed

lemma inv_v_ctor: "inv_v myvector_ctor" "0 < capacity myvector_ctor" "elems_v myvector_ctor = []"
  by (simp_all add: myvector_ctor_def inv_v_def new_array_def elems_v_def)

lemma push_back_v_doubling:
  assumes "inv_v v" "0 < capacity v" "length_v v < 2 ^ 30"
    "\<exists>k. capacity v = 2 ^ k \<and> (k = 0 \<or> 2 ^ k < 2 * length_v v)"
  shows "\<exists>v'. push_back_v (Value x) v = Returns () v' \<and> inv_v v' \<and> 0 < capacity v'
           \<and> elems_v v' = elems_v v @ [x] \<and> length_v v' = length_v v + 1
           \<and> (\<exists>k. capacity v' = 2 ^ k \<and> (k = 0 \<or> 2 ^ k < 2 * length_v v'))"
proof -
  from push_back_v_ok[OF assms(1,2,3), of x] obtain v' where
    v': "push_back_v (Value x) v = Returns () v'" "inv_v v'" "elems_v v' = elems_v v @ [x]"
      "capacity v' = (if length_v v = capacity v then 2 * capacity v else capacity v)"
      "length_v v' = length_v v + 1"
    by blast
  from assms(4) obtain k where k: "capacity v = 2 ^ k" "k = 0 \<or> 2 ^ k < 2 * length_v v"
    by blast
  have pos: "0 < capacity v'"
    using v'(4) assms(2) by (simp split: if_splits)
  have "\<exists>j. capacity v' = 2 ^ j \<and> (j = 0 \<or> 2 ^ j < 2 * length_v v')"
  proof (cases "length_v v = capacity v")
    case True
    then have "capacity v' = 2 ^ Suc k" "2 ^ Suc k < 2 * length_v v'"
      using v'(4,5) k(1) by simp_all
    then show ?thesis
      by blast
  next
    case False
    then have "capacity v' = 2 ^ k" "k = 0 \<or> 2 ^ k < 2 * length_v v'"
      using v'(4,5) k by auto
    then show ?thesis
      by blast
  qed
  with v' pos show ?thesis
    by blast
qed

lemma append_all_v_doubling:
  assumes "inv_v v" "0 < capacity v" "length_v v + int (length xs) \<le> 2 ^ 30"
    "\<exists>k. capacity v = 2 ^ k \<and> (k = 0 \<or> 2 ^ k < 2 * length_v v)"
  shows "\<exists>v'. append_all_v xs v = Returns () v' \<and> inv_v v' \<and> 0 < capacity v'
           \<and> elems_v v' = elems_v v @ xs \<and> length_v v' = length_v v + int (length xs)
           \<and> (\<exists>k. capacity v' = 2 ^ k \<and> (k = 0 \<or> 2 ^ k < 2 * length_v v'))"
  using assms
proof (induction xs arbitrary: v)
  case Nil
  then show ?case by simp
next
  case (Cons x xs)
  have "length_v v < 2 ^ 30"
    using Cons.prems(3) by simp
  from push_back_v_doubling[OF Cons.prems(1,2) this Cons.prems(4), of x]
  obtain v1 where v1: "push_back_v (Value x) v = Returns () v1" "inv_v v1" "0 < capacity v1"
      "elems_v v1 = elems_v v @ [x]" "length_v v1 = length_v v + 1"
      "\<exists>k. capacity v1 = 2 ^ k \<and> (k = 0 \<or> 2 ^ k < 2 * length_v v1)"
    by blast
  have "length_v v1 + int (length xs) \<le> 2 ^ 30"
    using v1(5) Cons.prems(3) by simp
  from Cons.IH[OF v1(2,3) this v1(6)] v1(1,4,5) show ?case
    by auto
qed

lemma append_all_v_append:
  "append_all_v (xs @ ys) v =
     (case append_all_v xs v of
        Returns _ v' \<Rightarrow> append_all_v ys v'
      | Throws e s \<Rightarrow> Throws e s
      | Undefined \<Rightarrow> Undefined)"
  by (induction xs arbitrary: v) (simp_all split: outcome.splits)

lemma power_two_between:
  assumes "(2 :: int) ^ n \<le> 2 ^ k" "(2 :: int) ^ k < 2 * 2 ^ n"
  shows "k = n"
proof -
  have "n \<le> k"
    using assms(1) by (simp add: power_increasing_iff)
  moreover have "(2 :: int) ^ k < 2 ^ Suc n"
    using assms(2) by simp
  then have "k < Suc n"
    by (rule power_less_imp_less_exp[rotated]) simp
  ultimately show ?thesis
    by simp
qed

lemma cells_of_full_vector:
  assumes "inv_v v" "length_v v = capacity v" "0 < capacity v"
  shows "data v = Array (map Some (elems_v v))"
proof (cases "data v")
  case Null
  then show ?thesis
    using assms by (simp add: inv_v_def)
next
  case (Array cs)
  note b = inv_v_ArrayD[OF assms(1) Array]
  have "take (nat (length_v v)) cs = cs"
    using b(3) assms(2) by simp
  then have all: "list_all (\<lambda>c. c \<noteq> None) cs" and el: "elems_v v = map the cs"
    using b(4) Array by (simp_all add: elems_v_def)
  have "map Some (map the cs) = cs"
    using all by (induction cs) auto
  then show ?thesis
    using Array el by simp
qed

lemma push_back_v_at_limit:
  assumes "length_v v = capacity v" "capacity v = 2 ^ 30"
  shows "push_back_v val v = Throws bad_array_new_length (v\<lparr>capacity := - (2 ^ 31)\<rparr>)"
  using assms by (simp add: push_back_v_def resize_def int32_def)

lemma append_all_v_past_limit:
  assumes "length xs = 2 ^ 30"
  shows "append_all_v (xs @ [x]) myvector_ctor
           = Throws bad_array_new_length
               \<lparr>data = Array (map Some xs), capacity = - (2 ^ 31), length_v = 2 ^ 30\<rparr>"
proof -
  have len: "int (length xs) = 2 ^ 30"
    using assms by simp
  have q: "\<exists>k. capacity (myvector_ctor :: 'a myvector) = 2 ^ k
      \<and> (k = 0 \<or> 2 ^ k < 2 * length_v (myvector_ctor :: 'a myvector))"
    by (intro exI[of _ 0]) (simp add: myvector_ctor_def)
  have l0: "length_v (myvector_ctor :: 'a myvector) = 0"
    by (simp add: myvector_ctor_def)
  have "length_v (myvector_ctor :: 'a myvector) + int (length xs) \<le> 2 ^ 30"
    using len l0 by simp
  from append_all_v_doubling[OF inv_v_ctor(1,2) this q]
  obtain v' k where v': "append_all_v xs myvector_ctor = Returns () v'" "inv_v v'"
      "0 < capacity v'" "elems_v v' = xs" "length_v v' = 2 ^ 30"
      "capacity v' = 2 ^ k" "k = 0 \<or> 2 ^ k < 2 * length_v v'"
    using len l0 by (auto simp: inv_v_ctor(3))
  have le: "(2 :: int) ^ 30 \<le> 2 ^ k"
    using v'(2,5,6) by (simp add: inv_v_def)
  have "k \<noteq> 0"
  proof
    assume "k = 0"
    with le show False by simp
  qed
  then have "(2 :: int) ^ k < 2 * 2 ^ 30"
    using v'(5,7) by simp
  from power_two_between[OF le this] have cap: "capacity v' = 2 ^ 30"
    using v'(6) by simp
  have full: "length_v v' = capacity v'"
    using cap v'(5) by simp
  have d: "data v' = Array (map Some xs)"
    using cells_of_full_vector[OF v'(2) full v'(3)] v'(4) by simp
  have "v'\<lparr>capacity := - (2 ^ 31)\<rparr>
      = \<lparr>data = Array (map Some xs), capacity = - (2 ^ 31), length_v = 2 ^ 30\<rparr>"
    using d v'(5) by (cases v') simp
  then show ?thesis
    using push_back_v_at_limit[OF full cap, of "Value x"] v'(1)
    by (simp add: append_all_v_append)
qed

lemma insert_v_front_of_empty:
  assumes "inv_v v" "0 < capacity v" "size_v v = 0"
  shows "\<exists>v'. insert_v (Value x) 0 v = Returns () v' \<and> elems_v v' = [x] \<and> size_v v' = 1
           \<and> at_v 0 v' = Returns x v'"
proof -
  have l: "length_v v = 0"
    using assms(3) by (simp add: size_v_def)
  have e: "elems_v v = []"
    using length_elems_v[OF assms(1)] l by simp
  from insert_v_ok[OF assms(1,2), of 0 x] obtain v' where
    r: "insert_v (Value x) 0 v = Returns () v'" "inv_v v'" "elems_v v' = [x]" "length_v v' = 1"
    by (auto simp: l e)
  have "at_v 0 v' = Returns x v'"
    using at_v_ok[OF r(2), of 0] r(3,4) by simp
  then show ?thesis
    using r by (auto simp: size_v_def)
qed

text \<open>
  The element of a call may be an element of the vector itself. \<open>v.insert(v[1], 0)\<close>
  stores what cell 1 holds after the shift, which is the old element 0, and
  \<open>v.push_back(v[0])\<close> on a full vector reads the array that \<open>resize\<close> has released.
\<close>

lemma insert_v_own_element:
  "insert_v (Element 1) 0 sample_v
     = Returns () \<lparr>data = Array [Some 10, Some 10, Some 20, Some 30], capacity = 4, length_v = 4\<rparr>"
  by (simp add: insert_v_def sample_v_def shift_right.simps)

lemma push_back_v_own_element_full:
  assumes "inv_v v" "length_v v = capacity v" "capacity v < 2 ^ 30"
  shows "push_back_v (Element k) v = Undefined"
proof -
  from resize_ok[OF assms(1,3)] obtain v' where "resize v = Returns () v'"
    by blast
  then show ?thesis
    using assms(2) by (simp add: push_back_v_def)
qed

section \<open>Properties of slist\<close>

lemma elems_n_Some: "elems_n (Some n) = value_n n # elems_n (next_n n)"
  by (cases n) simp

lemma elems_n_link_last: "elems_n (Some (link_last h n)) = elems_n (Some h) @ elems_n (Some n)"
  by (induction h n rule: link_last.induct) simp_all

lemma push_back_s_ok:
  "\<exists>l'. push_back_s x l = Returns () l' \<and> elems_s l' = elems_s l @ [x]
      \<and> length_s l' = length_s l + 1 \<and> (inv_s l \<longrightarrow> inv_s l')"
  by (cases "head_s l") (auto simp: push_back_s_def elems_s_def inv_s_def elems_n_link_last Let_def)

lemma print_loop_s_eq:
  "print_loop_s shw p out = out @ concat (map (\<lambda>x. shw x @ '' '') (elems_n p))"
  by (induction shw p out rule: print_loop_s.induct) simp_all

lemma print_s_ok:
  "print_s shw l = Returns (concat (map (\<lambda>x. shw x @ '' '') (elems_s l)) @ [CHR 0x0A]) l"
  by (simp add: print_s_def print_loop_s_eq elems_s_def)

lemma walk_s_nth:
  assumes "k < length (elems_n (Some cur))"
  shows "\<exists>n. walk_s (int c) (int c + int k) cur = Some n \<and> value_n n = elems_n (Some cur) ! k"
  using assms
proof (induction k arbitrary: cur c)
  case 0
  then show ?case
    by (subst walk_s.simps) (simp add: elems_n_Some)
next
  case (Suc k)
  obtain v nx where cur: "cur = Node v nx" by (cases cur)
  with Suc.prems obtain n where n: "nx = Some n"
    by (cases nx) auto
  have "k < length (elems_n (Some n))"
    using Suc.prems cur n by simp
  from Suc.IH[OF this, of "Suc c"] obtain m where
    m: "walk_s (int (Suc c)) (int (Suc c) + int k) n = Some m" "value_n m = elems_n (Some n) ! k"
    by blast
  have e: "int (Suc c) + int k = int c + int (Suc k)" "int c + 1 = int (Suc c)"
    by simp_all
  have "walk_s (int c) (int c + int (Suc k)) cur = walk_s (int c + 1) (int c + int (Suc k)) n"
    by (subst walk_s.simps) (simp add: cur n)
  also have "\<dots> = Some m"
    using m(1) by (simp only: e)
  finally show ?case
    using m(2) cur n by simp
qed

lemma at_s_ok:
  assumes "inv_s l" "0 \<le> index" "index < length_s l"
  shows "at_s index l = Returns (elems_s l ! nat index) l"
proof -
  from assms obtain h where h: "head_s l = Some h"
    by (cases "head_s l") (auto simp: inv_s_def elems_s_def)
  have "nat index < length (elems_n (Some h))"
    using assms h by (simp add: inv_s_def elems_s_def)
  from walk_s_nth[OF this, of 0] assms(2) obtain n where
    "walk_s 0 index h = Some n" "value_n n = elems_n (Some h) ! nat index"
    by auto
  then show ?thesis
    using assms h by (simp add: at_s_def elems_s_def)
qed

lemma update_at_insert:
  assumes "k < length (elems_n (Some cur))"
  shows "\<exists>r. update_at (int c) (int c + int k)
             (\<lambda>cur. Some (Node (value_n cur) (Some (Node x (next_n cur))))) cur = Some r
           \<and> elems_n (Some r)
             = take (Suc k) (elems_n (Some cur)) @ [x] @ drop (Suc k) (elems_n (Some cur))"
  using assms
proof (induction k arbitrary: cur c)
  case 0
  then show ?case
    by (subst update_at.simps) (simp add: elems_n_Some)
next
  case (Suc k)
  let ?f = "\<lambda>cur. Some (Node (value_n cur) (Some (Node x (next_n cur))))"
  obtain v nx where cur: "cur = Node v nx" by (cases cur)
  with Suc.prems obtain n where n: "nx = Some n"
    by (cases nx) auto
  have "k < length (elems_n (Some n))"
    using Suc.prems cur n by simp
  from Suc.IH[OF this, of "Suc c"] obtain r where
    r: "update_at (int (Suc c)) (int (Suc c) + int k) ?f n = Some r"
       "elems_n (Some r) = take (Suc k) (elems_n (Some n)) @ [x] @ drop (Suc k) (elems_n (Some n))"
    by blast
  have e: "int (Suc c) + int k = int c + int (Suc k)" "int c + 1 = int (Suc c)"
    by simp_all
  have "update_at (int c + 1) (int c + int (Suc k)) ?f n = Some r"
    using r(1) by (simp only: e)
  then have "update_at (int c) (int c + int (Suc k)) ?f cur = Some (Node v (Some r))"
    by (subst update_at.simps) (simp add: cur n)
  then show ?case
    using r(2) cur n by simp
qed

lemma update_at_erase:
  assumes "Suc k < length (elems_n (Some cur))"
  shows "\<exists>r. update_at (int c) (int c + int k)
             (\<lambda>cur. case next_n cur of None \<Rightarrow> None
                     | Some erased \<Rightarrow> Some (Node (value_n cur) (next_n erased))) cur = Some r
           \<and> elems_n (Some r)
             = take (Suc k) (elems_n (Some cur)) @ drop (Suc (Suc k)) (elems_n (Some cur))"
  using assms
proof (induction k arbitrary: cur c)
  case 0
  obtain v nx where cur: "cur = Node v nx" by (cases cur)
  with 0 obtain n where n: "nx = Some n"
    by (cases nx) auto
  show ?case
    by (subst update_at.simps) (simp add: cur n elems_n_Some)
next
  case (Suc k)
  let ?f = "\<lambda>cur. case next_n cur of None \<Rightarrow> None
                   | Some erased \<Rightarrow> Some (Node (value_n cur) (next_n erased))"
  obtain v nx where cur: "cur = Node v nx" by (cases cur)
  with Suc.prems obtain n where n: "nx = Some n"
    by (cases nx) auto
  have "Suc k < length (elems_n (Some n))"
    using Suc.prems cur n by simp
  from Suc.IH[OF this, of "Suc c"] obtain r where
    r: "update_at (int (Suc c)) (int (Suc c) + int k) ?f n = Some r"
       "elems_n (Some r) = take (Suc k) (elems_n (Some n)) @ drop (Suc (Suc k)) (elems_n (Some n))"
    by blast
  have e: "int (Suc c) + int k = int c + int (Suc k)" "int c + 1 = int (Suc c)"
    by simp_all
  have "update_at (int c + 1) (int c + int (Suc k)) ?f n = Some r"
    using r(1) by (simp only: e)
  then have "update_at (int c) (int c + int (Suc k)) ?f cur = Some (Node v (Some r))"
    by (subst update_at.simps) (simp add: cur n)
  then show ?case
    using r(2) cur n by simp
qed

lemma update_at_assign:
  assumes "k < length (elems_n (Some cur))"
  shows "\<exists>r. update_at (int c) (int c + int k) (\<lambda>cur. Some (Node x (next_n cur))) cur = Some r
           \<and> elems_n (Some r) = (elems_n (Some cur))[k := x]"
  using assms
proof (induction k arbitrary: cur c)
  case 0
  then show ?case
    by (subst update_at.simps) (simp add: elems_n_Some)
next
  case (Suc k)
  let ?f = "\<lambda>cur. Some (Node x (next_n cur))"
  obtain v nx where cur: "cur = Node v nx" by (cases cur)
  with Suc.prems obtain n where n: "nx = Some n"
    by (cases nx) auto
  have "k < length (elems_n (Some n))"
    using Suc.prems cur n by simp
  from Suc.IH[OF this, of "Suc c"] obtain r where
    r: "update_at (int (Suc c)) (int (Suc c) + int k) ?f n = Some r"
       "elems_n (Some r) = (elems_n (Some n))[k := x]"
    by blast
  have e: "int (Suc c) + int k = int c + int (Suc k)" "int c + 1 = int (Suc c)"
    by simp_all
  have "update_at (int c + 1) (int c + int (Suc k)) ?f n = Some r"
    using r(1) by (simp only: e)
  then have "update_at (int c) (int c + int (Suc k)) ?f cur = Some (Node v (Some r))"
    by (subst update_at.simps) (simp add: cur n)
  then show ?case
    using r(2) cur n by simp
qed

lemma update_at_insert_last:
  assumes "length (elems_n (Some cur)) = Suc k"
  shows "update_at (int c) (int c + int k)
           (\<lambda>cur. Some (Node (value_n cur) (Some (Node x (next_n cur))))) cur
       = Some (link_last cur (Node x None))"
  using assms
proof (induction k arbitrary: cur c)
  case 0
  obtain v nx where cur: "cur = Node v nx" by (cases cur)
  with 0 have "nx = None"
    by (cases nx) (auto simp: elems_n_Some)
  then show ?case
    by (subst update_at.simps) (simp add: cur)
next
  case (Suc k)
  let ?f = "\<lambda>cur. Some (Node (value_n cur) (Some (Node x (next_n cur))))"
  obtain v nx where cur: "cur = Node v nx" by (cases cur)
  with Suc.prems obtain n where n: "nx = Some n"
    by (cases nx) auto
  have "length (elems_n (Some n)) = Suc k"
    using Suc.prems cur n by simp
  from Suc.IH[OF this, of "Suc c"] have
    r: "update_at (int (Suc c)) (int (Suc c) + int k) ?f n = Some (link_last n (Node x None))" .
  have e: "int (Suc c) + int k = int c + int (Suc k)" "int c + 1 = int (Suc c)"
    by simp_all
  have "update_at (int c + 1) (int c + int (Suc k)) ?f n = Some (link_last n (Node x None))"
    using r by (simp only: e)
  then show ?case
    by (subst update_at.simps) (simp add: cur n)
qed

lemma insert_s_ok:
  assumes "inv_s l" "0 \<le> position" "position \<le> length_s l"
  shows "\<exists>l'. insert_s x position l = Returns () l' \<and> inv_s l'
           \<and> elems_s l' = take (nat position) (elems_s l) @ [x] @ drop (nat position) (elems_s l)
           \<and> length_s l' = length_s l + 1"
proof (cases "position = 0")
  case True
  then show ?thesis using assms
    by (simp add: insert_s_def inv_s_def elems_s_def)
next
  case False
  with assms obtain k where k: "position = int (Suc k)"
    by (metis nat_0_le not0_implies_Suc nat_eq_iff2 of_nat_0)
  from assms k obtain h where h: "head_s l = Some h"
    by (cases "head_s l") (auto simp: inv_s_def elems_s_def)
  have "k < length (elems_n (Some h))"
    using assms k h by (simp add: inv_s_def elems_s_def)
  from update_at_insert[OF this, of 0 x] obtain r where
    r: "update_at 0 (int k) (\<lambda>cur. Some (Node (value_n cur) (Some (Node x (next_n cur))))) h = Some r"
       "elems_n (Some r) = take (Suc k) (elems_n (Some h)) @ [x] @ drop (Suc k) (elems_n (Some h))"
    by auto
  have pk: "position - 1 = int k" "nat position = Suc k"
    using k by simp_all
  show ?thesis
    unfolding insert_s_def pk using assms False h r
    by (simp add: pk inv_s_def elems_s_def del: elems_n.simps)
qed

lemma erase_s_ok:
  assumes "inv_s l" "0 \<le> position" "position < length_s l"
  shows "\<exists>l'. erase_s position l = Returns () l' \<and> inv_s l'
           \<and> elems_s l' = take (nat position) (elems_s l) @ drop (Suc (nat position)) (elems_s l)
           \<and> length_s l' = length_s l - 1"
proof -
  from assms obtain h where h: "head_s l = Some h"
    by (cases "head_s l") (auto simp: inv_s_def elems_s_def)
  show ?thesis
  proof (cases "position = 0")
    case True
    then show ?thesis using assms h
      by (cases h) (simp add: erase_s_def inv_s_def elems_s_def)
  next
    case False
    with assms obtain k where k: "position = int (Suc k)"
      by (metis nat_0_le not0_implies_Suc nat_eq_iff2 of_nat_0)
    have lt: "Suc k < length (elems_n (Some h))"
      using assms k h by (simp add: inv_s_def elems_s_def)
    from update_at_erase[OF this, of 0] obtain r where
      r: "update_at 0 (int k) (\<lambda>cur. case next_n cur of None \<Rightarrow> None
            | Some erased \<Rightarrow> Some (Node (value_n cur) (next_n erased))) h = Some r"
         "elems_n (Some r) = take (Suc k) (elems_n (Some h)) @ drop (Suc (Suc k)) (elems_n (Some h))"
      by auto
    have pk: "position - 1 = int k" "nat position = Suc k"
      using k by simp_all
    show ?thesis
      unfolding erase_s_def pk using assms False h r lt
      by (simp add: pk inv_s_def elems_s_def min_def del: elems_n.simps drop_Suc)
  qed
qed

lemma assign_at_s_ok:
  assumes "inv_s l" "0 \<le> index" "index < length_s l"
  shows "\<exists>l'. assign_at_s index x l = Returns () l' \<and> inv_s l'
           \<and> elems_s l' = (elems_s l)[nat index := x] \<and> length_s l' = length_s l"
proof -
  from assms obtain h where h: "head_s l = Some h"
    by (cases "head_s l") (auto simp: inv_s_def elems_s_def)
  have "nat index < length (elems_n (Some h))"
    using assms h by (simp add: inv_s_def elems_s_def)
  from update_at_assign[OF this, of 0 x] assms(2) obtain r where
    "update_at 0 index (\<lambda>cur. Some (Node x (next_n cur))) h = Some r"
    "elems_n (Some r) = (elems_n (Some h))[nat index := x]"
    by auto
  then show ?thesis
    using assms h by (simp add: assign_at_s_def inv_s_def elems_s_def del: elems_n.simps)
qed

lemma insert_s_at_size:
  assumes "inv_s l"
  shows "insert_s x (size_s l) l = push_back_s x l"
proof (cases "head_s l")
  case None
  with assms have "length_s l = 0"
    by (simp add: inv_s_def elems_s_def)
  then show ?thesis using None
    by (simp add: insert_s_def push_back_s_def size_s_def)
next
  case (Some h)
  with assms obtain k where k: "length_s l = int (Suc k)" "length (elems_n (Some h)) = Suc k"
    by (cases h) (auto simp: inv_s_def elems_s_def)
  have "update_at 0 (int k) (\<lambda>cur. Some (Node (value_n cur) (Some (Node x (next_n cur))))) h
      = Some (link_last h (Node x None))"
    using update_at_insert_last[OF k(2), of 0 x] by simp
  moreover have "length_s l - 1 = int k"
    using k by simp
  ultimately show ?thesis using Some k(1)
    by (simp add: insert_s_def push_back_s_def size_s_def)
qed

lemma copy_loop_s_ok:
  "\<exists>l'. copy_loop_s p l = Returns () l' \<and> elems_s l' = elems_s l @ elems_n p
      \<and> length_s l' = length_s l + int (length (elems_n p))"
proof (induction p l rule: copy_loop_s.induct)
  case (1 l)
  show ?case by simp
next
  case (2 v nx l)
  obtain l1 where l1: "push_back_s v l = Returns () l1" "elems_s l1 = elems_s l @ [v]"
      "length_s l1 = length_s l + 1"
    using push_back_s_ok[of v l] by blast
  from "2.IH"[OF l1(1)] l1 show ?case
    by auto
qed

lemma copy_assign_s_ok:
  assumes "this \<noteq> list"
  shows "\<exists>b. copy_assign_s this list \<sigma> = Returns () (\<sigma>(this := b)) \<and> inv_s b
           \<and> elems_s b = elems_s (\<sigma> list)"
proof -
  let ?l0 = "(\<sigma> this)\<lparr>head_s := None, length_s := 0\<rparr>"
  obtain b where b: "copy_loop_s (head_s (\<sigma> list)) ?l0 = Returns () b"
      "elems_s b = elems_s ?l0 @ elems_n (head_s (\<sigma> list))"
      "length_s b = length_s ?l0 + int (length (elems_n (head_s (\<sigma> list))))"
    using copy_loop_s_ok[of "head_s (\<sigma> list)" ?l0] by blast
  have "elems_s ?l0 = []"
    by (simp add: elems_s_def)
  with b assms show ?thesis
    by (intro exI[of _ b]) (simp add: copy_assign_s_def inv_s_def elems_s_def)
qed

lemma iterate_s_eq: "iterate_s p None acc = Some (acc @ elems_n p)"
proof (induction p arbitrary: acc rule: elems_n.induct)
  case 1
  show ?case by (subst iterate_s.simps) simp
next
  case (2 v nx)
  show ?case
    by (subst iterate_s.simps) (simp add: deref_s_def incr_s_def "2.IH")
qed

lemma iterate_s_ok: "iterate_s (begin_s l) (end_s l) [] = Some (elems_s l)"
  by (simp add: begin_s_def end_s_def iterate_s_eq elems_s_def)

lemma append_all_s_ok:
  "\<exists>l'. append_all_s xs l = Returns () l' \<and> elems_s l' = elems_s l @ xs
      \<and> length_s l' = length_s l + int (length xs)"
proof (induction xs arbitrary: l)
  case Nil
  show ?case by simp
next
  case (Cons x xs)
  obtain l1 where l1: "push_back_s x l = Returns () l1" "elems_s l1 = elems_s l @ [x]"
      "length_s l1 = length_s l + 1"
    using push_back_s_ok[of x l] by blast
  from Cons.IH[of l1] l1 show ?case
    by auto
qed

section \<open>Properties of dlist\<close>

lemma lookup_update:
  "lookup (h[a := c]) b = (if b = a \<and> a < length h then c else lookup h b)"
  by (simp add: lookup_def)

lemma lookup_append:
  "lookup (h @ [c]) b = (if b = length h then c else lookup h b)"
  by (simp add: lookup_def nth_append)

lemma lookup_Some_less: "lookup h a = Some n \<Longrightarrow> a < length h"
  by (simp add: lookup_def split: if_splits)

lemma lookup_length: "lookup h (length h) = None"
  by (simp add: lookup_def)

lemma lookup_destroy:
  "lookup (destroy a h) b = (if b = a then None else lookup h b)"
  by (auto simp: destroy_def lookup_def)

lemma length_destroy: "length (destroy a h) = length h"
  by (simp add: destroy_def)

lemma set_next_Some:
  "lookup h a = Some n \<Longrightarrow> set_next (Some a) q h = Some (h[a := Some (n\<lparr>next_d := q\<rparr>)])"
  by (simp add: set_next_def)

lemma set_prev_Some:
  "lookup h a = Some n \<Longrightarrow> set_prev (Some a) q h = Some (h[a := Some (n\<lparr>prev_d := q\<rparr>)])"
  by (simp add: set_prev_def)

lemma set_value_Some:
  "lookup h a = Some n \<Longrightarrow> set_value (Some a) x h = Some (h[a := Some (n\<lparr>value_d := x\<rparr>)])"
  by (simp add: set_value_def)

lemma dpath_cong:
  "(\<forall>a\<in>set as. lookup h' a = lookup h a) \<Longrightarrow> dpath h' pr p as q = dpath h pr p as q"
  by (induction as arbitrary: pr p) (auto split: option.splits)

lemma elems_d_cong:
  "(\<forall>a\<in>set as. lookup h' a = lookup h a) \<Longrightarrow> elems_d h' as = elems_d h as"
  by (simp add: elems_d_def)

lemma dpath_live:
  "dpath h pr p as q \<Longrightarrow> a \<in> set as \<Longrightarrow> \<exists>n. lookup h a = Some n"
  by (induction as arbitrary: pr p) (auto split: option.splits)

lemma dpath_less: "dpath h pr p as q \<Longrightarrow> a \<in> set as \<Longrightarrow> a < length h"
  using dpath_live lookup_Some_less by fastforce

lemma dpath_fresh: "dpath h pr p as q \<Longrightarrow> length h \<notin> set as"
  using dpath_less by fastforce

lemma dpath_append:
  "dpath h pr p (xs @ ys) q
     = (\<exists>m. dpath h pr p xs m \<and> dpath h (if xs = [] then pr else Some (last xs)) m ys q)"
  by (induction xs arbitrary: pr p) (auto split: option.splits)

lemma dpath_Cons:
  "dpath h pr p (a # as) q
     = (p = Some a \<and> (\<exists>n. lookup h a = Some n \<and> prev_d n = pr \<and> dpath h (Some a) (next_d n) as q))"
  by (auto split: option.splits)

declare dpath.simps(2) [simp del]

declare dpath_Cons [simp]

lemma dpath_None: "dpath h pr None as q = (as = [] \<and> q = None)"
  by (cases as) auto

lemma dpath_hd: "dpath h pr p as None \<Longrightarrow> p = (case as of [] \<Rightarrow> None | a # _ \<Rightarrow> Some a)"
  by (cases as) auto

lemma last_d_path:
  "dpath h pr (Some a) (a # as) None \<Longrightarrow> last_d h a = Some (Some (last (a # as)))"
proof (induction as arbitrary: a pr)
  case Nil
  then show ?case
    by (subst last_d.simps) (auto split: option.splits)
next
  case (Cons b bs)
  from Cons.prems obtain n where n: "lookup h a = Some n" "next_d n = Some b"
      "dpath h (Some a) (Some b) (b # bs) None"
    by (auto simp: dpath_Cons)
  from Cons.IH[OF n(3)] show ?case
    by (subst last_d.simps) (simp add: n)
qed

lemma walk_d_path:
  assumes "dpath h pr p as None" "k \<le> length as"
  shows "walk_d h (int c) (int c + int k) p
       = Some (if k < length as then Some (as ! k) else None)"
  using assms
proof (induction k arbitrary: c p pr as)
  case 0
  then show ?case
    by (subst walk_d.simps) (cases as; simp)
next
  case (Suc k)
  then obtain a bs where as: "as = a # bs" by (cases as) auto
  from Suc.prems as obtain n where n: "p = Some a" "lookup h a = Some n"
      "dpath h (Some a) (next_d n) bs None"
    by (auto simp: dpath_Cons)
  have e: "int (Suc c) + int k = int c + int (Suc k)" "int c + 1 = int (Suc c)"
    by simp_all
  have "walk_d h (int (Suc c)) (int (Suc c) + int k) (next_d n)
      = Some (if k < length bs then Some (bs ! k) else None)"
    using Suc.IH[OF n(3), of "Suc c"] Suc.prems as by simp
  then have "walk_d h (int c + 1) (int c + int (Suc k)) (next_d n)
      = Some (if k < length bs then Some (bs ! k) else None)"
    by (simp only: e)
  then show ?case
    by (subst walk_d.simps) (simp add: n deref_def as)
qed

lemma dpath_back_links:
  "dpath h pr p as None \<Longrightarrow> back_links_ok h as"
proof (induction as arbitrary: pr p)
  case Nil
  show ?case by (simp add: back_links_ok_def)
next
  case (Cons a as)
  from Cons.prems obtain n where n: "lookup h a = Some n" "dpath h (Some a) (next_d n) as None"
    by (auto simp: dpath_Cons)
  have "back_links_ok h as"
    using Cons.IH[OF n(2)] .
  moreover have "case next_d n of None \<Rightarrow> True
      | Some m \<Rightarrow> (case lookup h m of None \<Rightarrow> False | Some md \<Rightarrow> resolve h (prev_d md) = Some a)"
    using n by (cases as) (auto simp: dpath_Cons resolve_def)
  ultimately show ?case
    using n by (simp add: back_links_ok_def)
qed

lemma dpath_set_next_last:
  assumes "dpath h pr p as q" "as \<noteq> []" "distinct as" "lookup h (last as) = Some c"
  shows "dpath (h[last as := Some (c\<lparr>next_d := q'\<rparr>)]) pr p as q'"
  using assms
proof (induction as arbitrary: pr p)
  case Nil
  then show ?case by simp
next
  case (Cons a as)
  show ?case
  proof (cases "as = []")
    case True
    with Cons.prems show ?thesis
      by (auto simp: lookup_update dest: lookup_Some_less)
  next
    case False
    from Cons.prems obtain n where n: "p = Some a" "lookup h a = Some n" "prev_d n = pr"
        "dpath h (Some a) (next_d n) as q"
      by auto
    have "dpath (h[last as := Some (c\<lparr>next_d := q'\<rparr>)]) (Some a) (next_d n) as q'"
      using Cons.IH[OF n(4) False] Cons.prems False by simp
    moreover have "last as \<noteq> a"
      using Cons.prems False by auto
    ultimately show ?thesis
      using n False by (simp add: lookup_update)
  qed
qed

lemma dpath_set_prev_first:
  assumes "dpath h pr p (a # as) q" "a \<notin> set as" "lookup h a = Some n"
  shows "dpath (h[a := Some (n\<lparr>prev_d := pr'\<rparr>)]) pr' p (a # as) q"
proof -
  have "dpath (h[a := Some (n\<lparr>prev_d := pr'\<rparr>)]) (Some a) (next_d n) as q
      = dpath h (Some a) (next_d n) as q"
    using assms(2) by (intro dpath_cong) (auto simp: lookup_update)
  then show ?thesis
    using assms by (auto simp: lookup_update dest: lookup_Some_less)
qed

lemma dpath_last_next:
  "dpath h pr p as q \<Longrightarrow> as \<noteq> [] \<Longrightarrow> \<exists>c. lookup h (last as) = Some c \<and> next_d c = q"
  by (induction as arbitrary: pr p) (auto split: if_splits)

lemma elems_d_append: "elems_d h (as @ bs) = elems_d h as @ elems_d h bs"
  by (simp add: elems_d_def)

lemma push_back_d_ok:
  assumes "inv_d h d as"
  shows "\<exists>h' d'. push_back_d x (h, d) = Some (Returns () (h', d'))
           \<and> inv_d h' d' (as @ [length h])
           \<and> elems_d h' (as @ [length h]) = elems_d h as @ [x]
           \<and> length h' = Suc (length h)
           \<and> (\<forall>b. b \<notin> set as \<and> b \<noteq> length h \<longrightarrow> lookup h' b = lookup h b)"
proof -
  let ?new = "length h"
  let ?h1 = "h @ [Some \<lparr>value_d = x, next_d = None, prev_d = None\<rparr>]"
  from assms have p: "dpath h None (head_d d) as None" and dist: "distinct as"
      and len: "length_d d = int (length as)"
    by (simp_all add: inv_d_def)
  have fresh: "?new \<notin> set as"
    using p by (rule dpath_fresh)
  show ?thesis
  proof (cases as)
    case Nil
    with p have "head_d d = None" by simp
    then show ?thesis using Nil len
      by (simp add: push_back_d_def make_shared_def inv_d_def lookup_append lookup_length elems_d_def)
  next
    case (Cons a bs)
    with p have hd: "head_d d = Some a" by auto
    have ne: "as \<noteq> []" using Cons by simp
    define cur where "cur = last as"
    have cur_in: "cur \<in> set as"
      using ne by (simp add: cur_def)
    obtain c where c: "lookup h cur = Some c" "next_d c = None"
      using dpath_last_next[OF p ne] by (auto simp: cur_def)
    have p1: "dpath ?h1 None (Some a) as None"
      using p hd fresh by (subst dpath_cong[of as _ h]) (auto simp: lookup_append)
    have last: "last_d ?h1 a = Some (Some cur)"
      using last_d_path[of ?h1 None a bs] p1 Cons by (simp add: cur_def)
    have cn: "cur \<noteq> ?new" "cur < length h"
      using cur_in fresh c lookup_Some_less by auto
    define h3 where "h3 = (?h1[?new := Some \<lparr>value_d = x, next_d = None, prev_d = Some cur\<rparr>])
        [cur := Some (c\<lparr>next_d := Some ?new\<rparr>)]"
    have s1: "set_prev (Some ?new) (Some cur) ?h1
        = Some (?h1[?new := Some \<lparr>value_d = x, next_d = None, prev_d = Some cur\<rparr>])"
      by (simp add: set_prev_def lookup_append)
    have s2: "set_next (Some cur) (Some ?new)
        (?h1[?new := Some \<lparr>value_d = x, next_d = None, prev_d = Some cur\<rparr>]) = Some h3"
      using cn c by (simp add: set_next_def lookup_update lookup_append h3_def)
    have res: "push_back_d x (h, d) = Some (Returns () (h3, d\<lparr>length_d := length_d d + 1\<rparr>))"
      using hd last s1 s2 by (simp add: push_back_d_def make_shared_def)
    have l3: "\<And>b. lookup h3 b = (if b = cur then Some (c\<lparr>next_d := Some ?new\<rparr>)
        else if b = ?new then Some \<lparr>value_d = x, next_d = None, prev_d = Some cur\<rparr>
        else lookup h b)"
      using cn by (auto simp: h3_def lookup_update lookup_append)
    have len3: "length h3 = Suc (length h)"
      by (simp add: h3_def)
    have q0: "dpath (h[cur := Some (c\<lparr>next_d := Some ?new\<rparr>)]) None (Some a) as (Some ?new)"
      using dpath_set_next_last[OF p ne dist, of c "Some ?new"] c hd unfolding cur_def by simp
    have "\<forall>b\<in>set as. lookup h3 b = lookup (h[cur := Some (c\<lparr>next_d := Some ?new\<rparr>)]) b"
      using fresh cn by (auto simp: l3 lookup_update)
    then have q1: "dpath h3 None (Some a) as (Some ?new)"
      using q0 by (simp only: dpath_cong)
    have q2: "dpath h3 (Some cur) (Some ?new) [?new] None"
      using cn by (simp add: l3)
    have path: "dpath h3 None (Some a) (as @ [?new]) None"
      unfolding dpath_append using q1 q2 ne by (auto simp: cur_def)
    have el: "elems_d h3 (as @ [?new]) = elems_d h as @ [x]"
      using fresh cn c by (auto simp: elems_d_def l3)
    show ?thesis
      unfolding res using path el dist fresh len hd cn cur_in len3
      by (auto simp: inv_d_def l3 simp del: dpath_Cons)
  qed
qed

lemma dpath_split_at:
  assumes "dpath h pr p as None" "k < length as"
  shows "\<exists>m. dpath h pr p (take (Suc k) as) m \<and> dpath h (Some (as ! k)) m (drop (Suc k) as) None"
proof -
  have "take (Suc k) as \<noteq> []" "last (take (Suc k) as) = as ! k"
    using assms(2) by (auto simp: take_Suc_conv_app_nth)
  moreover have "dpath h pr p (take (Suc k) as @ drop (Suc k) as) None"
    using assms(1) by simp
  ultimately show ?thesis
    unfolding dpath_append by auto
qed

lemma elems_d_take: "elems_d h (take n as) = take n (elems_d h as)"
  by (simp add: elems_d_def take_map)

lemma elems_d_drop: "elems_d h (drop n as) = drop n (elems_d h as)"
  by (simp add: elems_d_def drop_map)

lemma insert_d_front_ok:
  assumes "inv_d h d as"
  shows "\<exists>h' d'. insert_d x 0 (h, d) = Returns () (h', d')
           \<and> inv_d h' d' (length h # as)
           \<and> elems_d h' (length h # as) = x # elems_d h as
           \<and> length h' = Suc (length h)
           \<and> (\<forall>b. b \<notin> set as \<and> b \<noteq> length h \<longrightarrow> lookup h' b = lookup h b)"
proof -
  let ?new = "length h"
  let ?h1 = "h @ [Some \<lparr>value_d = x, next_d = None, prev_d = None\<rparr>]"
  from assms have p: "dpath h None (head_d d) as None" and dist: "distinct as"
      and len: "length_d d = int (length as)"
    by (simp_all add: inv_d_def)
  have fresh: "?new \<notin> set as"
    using p by (rule dpath_fresh)
  show ?thesis
  proof (cases as)
    case Nil
    with p have "head_d d = None" by simp
    then show ?thesis using Nil len
      by (simp add: insert_d_def make_shared_def inv_d_def lookup_append lookup_length elems_d_def)
  next
    case (Cons a bs)
    with p obtain an where hd: "head_d d = Some a" and an: "lookup h a = Some an"
      by auto
    have a: "a \<noteq> ?new" "a < length h" "a \<notin> set bs"
      using fresh Cons an lookup_Some_less dist by auto
    define h3 where "h3 = (?h1[a := Some (an\<lparr>prev_d := Some ?new\<rparr>)])
        [?new := Some \<lparr>value_d = x, next_d = Some a, prev_d = None\<rparr>]"
    have s1: "set_prev (Some a) (Some ?new) ?h1 = Some (?h1[a := Some (an\<lparr>prev_d := Some ?new\<rparr>)])"
      using a an by (simp add: set_prev_def lookup_append)
    have s2: "set_next (Some ?new) (Some a) (?h1[a := Some (an\<lparr>prev_d := Some ?new\<rparr>)]) = Some h3"
      using a by (simp add: set_next_def lookup_update lookup_append h3_def)
    have res: "insert_d x 0 (h, d)
        = Returns () (h3, d\<lparr>head_d := Some ?new, length_d := length_d d + 1\<rparr>)"
      using hd s1 s2 len by (simp add: insert_d_def make_shared_def)
    have l3: "\<And>b. lookup h3 b = (if b = ?new then Some \<lparr>value_d = x, next_d = Some a, prev_d = None\<rparr>
        else if b = a then Some (an\<lparr>prev_d := Some ?new\<rparr>)
        else lookup h b)"
      using a by (auto simp: h3_def lookup_update lookup_append)
    have len3: "length h3 = Suc (length h)"
      by (simp add: h3_def)
    have q0: "dpath (h[a := Some (an\<lparr>prev_d := Some ?new\<rparr>)]) (Some ?new) (Some a) (a # bs) None"
      using dpath_set_prev_first[of h None "head_d d" a bs None an "Some ?new"] p Cons an a hd
      by simp
    have "\<forall>b\<in>set (a # bs). lookup h3 b = lookup (h[a := Some (an\<lparr>prev_d := Some ?new\<rparr>)]) b"
      using fresh a Cons by (auto simp: l3 lookup_update)
    then have q1: "dpath h3 (Some ?new) (Some a) (a # bs) None"
      using q0 by (simp only: dpath_cong)
    have path: "dpath h3 None (Some ?new) (?new # as) None"
      using q1 Cons by (simp add: l3 del: dpath_Cons) (simp add: l3)
    have el: "elems_d h3 (?new # as) = x # elems_d h as"
      using fresh a an Cons by (auto simp: elems_d_def l3)
    show ?thesis
      unfolding res using path el dist fresh len len3 Cons
      by (auto simp: inv_d_def l3 simp del: dpath_Cons)
  qed
qed

lemma insert_d_after_ok:
  assumes "inv_d h d as" "k < length as"
  shows "\<exists>h' d'. insert_d x (int (Suc k)) (h, d) = Returns () (h', d')
           \<and> inv_d h' d' (take (Suc k) as @ [length h] @ drop (Suc k) as)
           \<and> elems_d h' (take (Suc k) as @ [length h] @ drop (Suc k) as)
               = take (Suc k) (elems_d h as) @ [x] @ drop (Suc k) (elems_d h as)
           \<and> length h' = Suc (length h)
           \<and> (\<forall>b. b \<notin> set as \<and> b \<noteq> length h \<longrightarrow> lookup h' b = lookup h b)"
proof -
  let ?new = "length h"
  let ?h1 = "h @ [Some \<lparr>value_d = x, next_d = None, prev_d = None\<rparr>]"
  from assms have p: "dpath h None (head_d d) as None" and dist: "distinct as"
      and len: "length_d d = int (length as)"
    by (simp_all add: inv_d_def)
  have fresh: "?new \<notin> set as"
    using p by (rule dpath_fresh)
  define xs where "xs = take (Suc k) as"
  define ys where "ys = drop (Suc k) as"
  define cur where "cur = as ! k"
  have as: "as = xs @ ys"
    by (simp add: xs_def ys_def)
  have xs: "xs \<noteq> []" "last xs = cur" "cur \<in> set xs"
    using assms(2) by (auto simp: xs_def cur_def take_Suc_conv_app_nth)
  have disj: "set xs \<inter> set ys = {}" "distinct xs" "distinct ys"
    using dist as by auto
  obtain m where m: "dpath h None (head_d d) xs m" "dpath h (Some cur) m ys None"
    using dpath_split_at[OF p assms(2)] by (auto simp: xs_def ys_def cur_def)
  obtain c where c: "lookup h cur = Some c" "next_d c = m"
    using dpath_last_next[OF m(1) xs(1)] xs(2) by auto
  have cur: "cur \<noteq> ?new" "cur < length h" "cur \<notin> set ys"
    using xs(3) fresh as c lookup_Some_less disj by auto
  have p1: "dpath ?h1 None (head_d d) as None"
    using p fresh by (subst dpath_cong[of as _ h]) (auto simp: lookup_append)
  have walk: "walk_d ?h1 0 (int k) (head_d d) = Some (Some cur)"
    using walk_d_path[OF p1, of k 0] assms(2) by (simp add: cur_def)
  have d1: "deref ?h1 (Some cur) = Some c"
    using c cur by (simp add: deref_def lookup_append)
  define h2 where "h2 = ?h1[?new := Some \<lparr>value_d = x, next_d = m, prev_d = None\<rparr>]"
  have s2: "set_next (Some ?new) (next_d c) ?h1 = Some h2"
    by (simp add: set_next_def lookup_append h2_def c)
  have l2: "\<And>b. lookup h2 b = (if b = ?new then Some \<lparr>value_d = x, next_d = m, prev_d = None\<rparr>
      else lookup h b)"
    by (auto simp: h2_def lookup_update lookup_append)
  have len2: "length h2 = Suc (length h)"
    by (simp add: h2_def)
  obtain h3 where s3: "(case next_d c of None \<Rightarrow> Some h2
        | Some nx \<Rightarrow> set_prev (Some nx) (Some ?new) h2) = Some h3"
      and l3: "\<And>b. lookup h3 b
        = (if b = ?new then Some \<lparr>value_d = x, next_d = m, prev_d = None\<rparr>
           else if b \<in> set (take 1 ys)
             then map_option (\<lambda>n. n\<lparr>prev_d := Some ?new\<rparr>) (lookup h b)
           else lookup h b)"
      and len3: "length h3 = Suc (length h)"
  proof (cases ys)
    case Nil
    with m(2) have "m = None" by simp
    then show ?thesis
      using that[of h2] Nil c l2 len2 by simp
  next
    case (Cons y ys')
    with m(2) obtain yn where y: "m = Some y" "lookup h y = Some yn"
      by auto
    have yn: "y \<noteq> ?new" "y < length h"
      using y lookup_Some_less by (auto simp: lookup_def)
    have "set_prev (Some y) (Some ?new) h2 = Some (h2[y := Some (yn\<lparr>prev_d := Some ?new\<rparr>)])"
      using y yn by (simp add: set_prev_def l2)
    moreover have "\<And>b. lookup (h2[y := Some (yn\<lparr>prev_d := Some ?new\<rparr>)]) b
        = (if b = ?new then Some \<lparr>value_d = x, next_d = m, prev_d = None\<rparr>
           else if b \<in> set (take 1 ys)
             then map_option (\<lambda>n. n\<lparr>prev_d := Some ?new\<rparr>) (lookup h b)
           else lookup h b)"
      using y yn Cons len2 by (auto simp: lookup_update l2)
    ultimately show ?thesis
      using that[of "h2[y := Some (yn\<lparr>prev_d := Some ?new\<rparr>)]"] c y len2 by simp
  qed
  have cur_nys: "cur \<notin> set (take 1 ys)"
    using cur(3) by (auto dest: in_set_takeD)
  define h5 where "h5 = (h3[?new := Some \<lparr>value_d = x, next_d = m, prev_d = Some cur\<rparr>])
      [cur := Some (c\<lparr>next_d := Some ?new\<rparr>)]"
  have s4: "set_prev (Some ?new) (Some cur) h3
      = Some (h3[?new := Some \<lparr>value_d = x, next_d = m, prev_d = Some cur\<rparr>])"
    by (simp add: set_prev_def l3)
  have s5: "set_next (Some cur) (Some ?new)
      (h3[?new := Some \<lparr>value_d = x, next_d = m, prev_d = Some cur\<rparr>]) = Some h5"
    using cur cur_nys c by (simp add: set_next_def lookup_update l3 h5_def)
  have pos: "\<not> int (Suc k) > length_d d" "\<not> int (Suc k) < 0" "int (Suc k) \<noteq> 0"
      "int (Suc k) - 1 = int k"
    using assms(2) len by simp_all
  have res: "insert_d x (int (Suc k)) (h, d) = Returns () (h5, d\<lparr>length_d := length_d d + 1\<rparr>)"
    unfolding insert_d_def make_shared_def prod.case
    by (simp only: pos if_False walk d1 s2 s3 s4 s5 bind.bind_lunit option.case simp_thms)
  have l5: "\<And>b. lookup h5 b
      = (if b = cur then Some (c\<lparr>next_d := Some ?new\<rparr>)
         else if b = ?new then Some \<lparr>value_d = x, next_d = m, prev_d = Some cur\<rparr>
         else if b \<in> set (take 1 ys)
           then map_option (\<lambda>n. n\<lparr>prev_d := Some ?new\<rparr>) (lookup h b)
         else lookup h b)"
    using cur len3 by (auto simp: h5_def lookup_update l3)
  have len5: "length h5 = Suc (length h)"
    by (simp add: h5_def len3)
  have q0: "dpath (h[cur := Some (c\<lparr>next_d := Some ?new\<rparr>)]) None (head_d d) xs (Some ?new)"
    using dpath_set_next_last[OF m(1) xs(1) disj(2), of c "Some ?new"] c xs(2) by simp
  have "\<forall>b\<in>set xs. lookup h5 b = lookup (h[cur := Some (c\<lparr>next_d := Some ?new\<rparr>)]) b"
    using fresh as cur disj(1) by (auto simp: l5 lookup_update dest: in_set_takeD)
  then have q1: "dpath h5 None (head_d d) xs (Some ?new)"
    using q0 by (simp only: dpath_cong)
  have q2: "dpath h5 (Some cur) (Some ?new) [?new] m"
    using cur by (simp add: l5)
  have q3: "dpath h5 (Some ?new) m ys None"
  proof (cases ys)
    case Nil
    with m(2) show ?thesis by simp
  next
    case (Cons y ys')
    with m(2) obtain yn where y: "m = Some y" "lookup h y = Some yn"
      by auto
    have y': "y \<notin> set ys'"
      using disj(3) Cons by simp
    have "dpath (h[y := Some (yn\<lparr>prev_d := Some ?new\<rparr>)]) (Some ?new) m (y # ys') None"
      using dpath_set_prev_first[of h "Some cur" m y ys' None yn "Some ?new"] m(2) Cons y y'
      by simp
    moreover have "\<forall>b\<in>set (y # ys'). lookup h5 b = lookup (h[y := Some (yn\<lparr>prev_d := Some ?new\<rparr>)]) b"
      using fresh as cur Cons y y' lookup_Some_less[OF y(2)] by (auto simp: l5 lookup_update)
    ultimately show ?thesis
      unfolding Cons by (simp only: dpath_cong)
  qed
  have path: "dpath h5 None (head_d d) (xs @ [?new] @ ys) None"
    unfolding dpath_append using q1 q2 q3 xs by auto
  have vx: "value_d (the (lookup h5 b)) = value_d (the (lookup h b))" if b: "b \<in> set as" for b
  proof -
    obtain n where "lookup h b = Some n"
      using dpath_live[OF p b] by blast
    then show ?thesis
      using b fresh c by (auto simp: l5)
  qed
  have e1: "elems_d h5 xs = elems_d h xs" "elems_d h5 ys = elems_d h ys"
    using vx as by (auto simp: elems_d_def)
  have e2: "elems_d h5 [?new] = [x]"
    using cur by (simp add: elems_d_def l5)
  have e3: "elems_d h xs = take (Suc k) (elems_d h as)" "elems_d h ys = drop (Suc k) (elems_d h as)"
    by (simp_all only: xs_def ys_def elems_d_take elems_d_drop)
  have el: "elems_d h5 (xs @ [?new] @ ys)
      = take (Suc k) (elems_d h as) @ [x] @ drop (Suc k) (elems_d h as)"
    by (simp only: elems_d_append e1 e2 e3)
  have dist': "distinct (xs @ [?new] @ ys)"
    using disj fresh as by auto
  have frame: "\<forall>b. b \<notin> set as \<and> b \<noteq> ?new \<longrightarrow> lookup h5 b = lookup h b"
    using xs(3) as by (auto simp: l5 dest: in_set_takeD)
  have len': "length_d d + 1 = int (length (xs @ [?new] @ ys))"
    using len as by simp
  show ?thesis
    unfolding res xs_def[symmetric] ys_def[symmetric]
    using path el dist' frame len5 len'
    by (simp add: inv_d_def del: dpath_Cons)
qed

lemma insert_d_ok:
  assumes "inv_d h d as" "0 \<le> position" "position \<le> length_d d"
  shows "\<exists>h' d'. insert_d x position (h, d) = Returns () (h', d')
           \<and> inv_d h' d' (take (nat position) as @ [length h] @ drop (nat position) as)
           \<and> elems_d h' (take (nat position) as @ [length h] @ drop (nat position) as)
               = take (nat position) (elems_d h as) @ [x] @ drop (nat position) (elems_d h as)
           \<and> length h' = Suc (length h)
           \<and> (\<forall>b. b \<notin> set as \<and> b \<noteq> length h \<longrightarrow> lookup h' b = lookup h b)"
proof (cases "position = 0")
  case True
  then show ?thesis
    using insert_d_front_ok[OF assms(1), of x] by simp
next
  case False
  with assms(2) obtain k where k: "position = int (Suc k)"
    by (metis nat_0_le not0_implies_Suc nat_eq_iff2 of_nat_0)
  have "k < length as"
    using assms k by (simp add: inv_d_def)
  from insert_d_after_ok[OF assms(1) this, of x] show ?thesis
    unfolding k by (simp only: nat_int)
qed

lemma erase_d_front_ok:
  assumes "inv_d h d (a # bs)"
  shows "\<exists>h' d'. erase_d 0 (h, d) = Returns () (h', d')
           \<and> inv_d h' d' bs
           \<and> elems_d h' bs = elems_d h bs
           \<and> length h' = length h \<and> lookup h' a = None
           \<and> (\<forall>b. b \<notin> set (a # bs) \<longrightarrow> lookup h' b = lookup h b)"
proof -
  from assms have p: "dpath h None (head_d d) (a # bs) None" and dist: "distinct (a # bs)"
      and len: "length_d d = int (length (a # bs))"
    by (simp_all add: inv_d_def)
  from p obtain an where hd: "head_d d = Some a" and an: "lookup h a = Some an"
      and rest: "dpath h (Some a) (next_d an) bs None"
    by auto
  have pos: "\<not> (0 \<ge> length_d d \<or> (0::int) < 0)"
    using len by simp
  show ?thesis
  proof (cases bs)
    case Nil
    with rest have nx: "next_d an = None" by simp
    have res: "erase_d 0 (h, d)
        = Returns () (destroy a h, d\<lparr>head_d := None, length_d := length_d d - 1\<rparr>)"
      using pos hd an nx by (simp add: erase_d_def)
    show ?thesis
      unfolding res using Nil len
      by (simp add: inv_d_def lookup_destroy length_destroy elems_d_def)
  next
    case (Cons b bs')
    with rest obtain bn where nx: "next_d an = Some b" and bn: "lookup h b = Some bn"
      by auto
    have b: "b \<noteq> a" "b \<notin> set bs'" "a \<notin> set bs"
      using dist Cons by auto
    define h2 where "h2 = destroy a (h[b := Some (bn\<lparr>prev_d := None\<rparr>)])"
    have s1: "set_prev (Some b) None h = Some (h[b := Some (bn\<lparr>prev_d := None\<rparr>)])"
      using bn by (simp add: set_prev_def)
    have res: "erase_d 0 (h, d)
        = Returns () (h2, d\<lparr>head_d := Some b, length_d := length_d d - 1\<rparr>)"
      using pos hd an nx s1 by (simp add: erase_d_def h2_def)
    have l2: "\<And>c. lookup h2 c = (if c = a then None
        else if c = b then Some (bn\<lparr>prev_d := None\<rparr>) else lookup h c)"
      using lookup_Some_less[OF bn] by (auto simp: h2_def lookup_destroy lookup_update)
    have len2: "length h2 = length h"
      by (simp add: h2_def length_destroy)
    have "dpath (h[b := Some (bn\<lparr>prev_d := None\<rparr>)]) None (Some b) (b # bs') None"
      using dpath_set_prev_first[of h "Some a" "next_d an" b bs' None bn None] rest Cons bn b nx
      by simp
    moreover have "\<forall>c\<in>set (b # bs'). lookup h2 c = lookup (h[b := Some (bn\<lparr>prev_d := None\<rparr>)]) c"
      using b Cons lookup_Some_less[OF bn] by (auto simp: l2 lookup_update)
    ultimately have path: "dpath h2 None (Some b) bs None"
      unfolding Cons by (simp only: dpath_cong)
    have el: "elems_d h2 bs = elems_d h bs"
      using b bn Cons by (auto simp: elems_d_def l2)
    show ?thesis
      unfolding res using path el dist len len2 Cons
      by (auto simp: inv_d_def l2 simp del: dpath_Cons)
  qed
qed

lemma erase_d_after_ok:
  assumes "inv_d h d as" "Suc k < length as"
  shows "\<exists>h' d'. erase_d (int (Suc k)) (h, d) = Returns () (h', d')
           \<and> inv_d h' d' (take (Suc k) as @ drop (Suc (Suc k)) as)
           \<and> elems_d h' (take (Suc k) as @ drop (Suc (Suc k)) as)
               = take (Suc k) (elems_d h as) @ drop (Suc (Suc k)) (elems_d h as)
           \<and> length h' = length h \<and> lookup h' (as ! Suc k) = None
           \<and> (\<forall>b. b \<notin> set as \<longrightarrow> lookup h' b = lookup h b)"
proof -
  from assms have p: "dpath h None (head_d d) as None" and dist: "distinct as"
      and len: "length_d d = int (length as)"
    by (simp_all add: inv_d_def)
  define xs where "xs = take (Suc k) as"
  define ys where "ys = drop (Suc (Suc k)) as"
  define cur where "cur = as ! k"
  define e where "e = as ! Suc k"
  have k: "k < length as"
    using assms(2) by simp
  have dr: "drop (Suc k) as = e # ys"
    using assms(2) by (simp add: e_def ys_def Cons_nth_drop_Suc)
  have as: "as = xs @ e # ys"
    using dr by (metis append_take_drop_id xs_def)
  have xs: "xs \<noteq> []" "last xs = cur" "cur \<in> set xs"
    using k by (auto simp: xs_def cur_def take_Suc_conv_app_nth)
  have disj: "set xs \<inter> set ys = {}" "distinct xs" "distinct ys" "e \<notin> set xs" "e \<notin> set ys"
    using dist as by auto
  obtain m where m: "dpath h None (head_d d) xs m" "dpath h (Some cur) m (e # ys) None"
    using dpath_split_at[OF p k] dr by (auto simp: xs_def cur_def simp del: dpath_Cons)
  from m(2) obtain en where en: "m = Some e" "lookup h e = Some en" "prev_d en = Some cur"
      "dpath h (Some e) (next_d en) ys None"
    by auto
  obtain c where c: "lookup h cur = Some c" "next_d c = Some e"
    using dpath_last_next[OF m(1) xs(1)] xs(2) en(1) by auto
  have cur: "cur \<noteq> e" "cur < length h" "cur \<notin> set ys" "e < length h"
    using xs(3) disj c en lookup_Some_less by auto
  have walk: "walk_d h 0 (int k) (head_d d) = Some (Some cur)"
    using walk_d_path[OF p, of k 0] k by (simp add: cur_def)
  have d1: "deref h (Some cur) = Some c"
    using c by (simp add: deref_def)
  define h2 where "h2 = destroy e (h[cur := Some (c\<lparr>next_d := next_d en\<rparr>)])"
  have s1: "set_next (Some cur) (next_d en) h = Some (h[cur := Some (c\<lparr>next_d := next_d en\<rparr>)])"
    using c by (simp add: set_next_def)
  have l2: "\<And>b. lookup h2 b = (if b = e then None
      else if b = cur then Some (c\<lparr>next_d := next_d en\<rparr>) else lookup h b)"
    using cur by (auto simp: h2_def lookup_destroy lookup_update)
  have len2: "length h2 = length h"
    by (simp add: h2_def length_destroy)
  obtain h3 where s3: "(case next_d en of None \<Rightarrow> Some h2
        | Some nx \<Rightarrow> set_prev (Some nx) (Some cur) h2) = Some h3"
      and l3: "\<And>b. lookup h3 b
        = (if b = e then None
           else if b = cur then Some (c\<lparr>next_d := next_d en\<rparr>)
           else if b \<in> set (take 1 ys)
             then map_option (\<lambda>n. n\<lparr>prev_d := Some cur\<rparr>) (lookup h b)
           else lookup h b)"
      and len3: "length h3 = length h"
  proof (cases ys)
    case Nil
    with en(4) have "next_d en = None" by simp
    then show ?thesis
      using that[of h2] Nil l2 len2 by simp
  next
    case (Cons y ys')
    with en(4) obtain yn where y: "next_d en = Some y" "lookup h y = Some yn"
      by auto
    have yn: "y \<noteq> e" "y \<noteq> cur" "y < length h"
      using y lookup_Some_less disj(5) cur(3) Cons by auto
    have "set_prev (Some y) (Some cur) h2 = Some (h2[y := Some (yn\<lparr>prev_d := Some cur\<rparr>)])"
      using y yn by (simp add: set_prev_def l2)
    moreover have "\<And>b. lookup (h2[y := Some (yn\<lparr>prev_d := Some cur\<rparr>)]) b
        = (if b = e then None
           else if b = cur then Some (c\<lparr>next_d := next_d en\<rparr>)
           else if b \<in> set (take 1 ys)
             then map_option (\<lambda>n. n\<lparr>prev_d := Some cur\<rparr>) (lookup h b)
           else lookup h b)"
      using y yn Cons len2 by (auto simp: lookup_update l2)
    ultimately show ?thesis
      using that[of "h2[y := Some (yn\<lparr>prev_d := Some cur\<rparr>)]"] y len2 by simp
  qed
  have pos: "\<not> (int (Suc k) \<ge> length_d d \<or> int (Suc k) < 0)" "int (Suc k) \<noteq> 0"
      "int (Suc k) - 1 = int k"
    using assms(2) len by simp_all
  have res: "erase_d (int (Suc k)) (h, d) = Returns () (h3, d\<lparr>length_d := length_d d - 1\<rparr>)"
    unfolding erase_d_def prod.case
    using s3
    by (simp only: pos if_False walk d1 c en(2) s1 bind.bind_lunit option.case simp_thms h2_def)
  have q0: "dpath (h[cur := Some (c\<lparr>next_d := next_d en\<rparr>)]) None (head_d d) xs (next_d en)"
    using dpath_set_next_last[OF m(1) xs(1) disj(2), of c "next_d en"] c xs(2) by simp
  have "\<forall>b\<in>set xs. lookup h3 b = lookup (h[cur := Some (c\<lparr>next_d := next_d en\<rparr>)]) b"
    using cur disj by (auto simp: l3 lookup_update dest: in_set_takeD)
  then have q1: "dpath h3 None (head_d d) xs (next_d en)"
    using q0 by (simp only: dpath_cong)
  have q3: "dpath h3 (Some cur) (next_d en) ys None"
  proof (cases ys)
    case Nil
    with en(4) show ?thesis by simp
  next
    case (Cons y ys')
    with en(4) obtain yn where y: "next_d en = Some y" "lookup h y = Some yn"
      by auto
    have y': "y \<notin> set ys'"
      using disj(3) Cons by simp
    have "dpath (h[y := Some (yn\<lparr>prev_d := Some cur\<rparr>)]) (Some cur) (next_d en) (y # ys') None"
      using dpath_set_prev_first[of h "Some e" "next_d en" y ys' None yn "Some cur"] en(4) Cons y y'
      by simp
    moreover have "\<forall>b\<in>set (y # ys'). lookup h3 b = lookup (h[y := Some (yn\<lparr>prev_d := Some cur\<rparr>)]) b"
      using cur disj(5) Cons y y' lookup_Some_less[OF y(2)] by (auto simp: l3 lookup_update)
    ultimately show ?thesis
      unfolding Cons by (simp only: dpath_cong)
  qed
  have path: "dpath h3 None (head_d d) (xs @ ys) None"
    unfolding dpath_append using q1 q3 xs by auto
  have vx: "value_d (the (lookup h3 b)) = value_d (the (lookup h b))"
    if b: "b \<in> set xs \<union> set ys" for b
  proof -
    have "b \<in> set as" using b as by auto
    then obtain n where "lookup h b = Some n"
      using dpath_live[OF p] by blast
    then show ?thesis
      using b disj c by (auto simp: l3)
  qed
  have e1: "elems_d h3 xs = elems_d h xs" "elems_d h3 ys = elems_d h ys"
    using vx by (auto simp: elems_d_def)
  have e3: "elems_d h xs = take (Suc k) (elems_d h as)"
      "elems_d h ys = drop (Suc (Suc k)) (elems_d h as)"
    by (simp_all only: xs_def ys_def elems_d_take elems_d_drop)
  have el: "elems_d h3 (xs @ ys)
      = take (Suc k) (elems_d h as) @ drop (Suc (Suc k)) (elems_d h as)"
    by (simp only: elems_d_append e1 e3)
  have dist': "distinct (xs @ ys)"
    using disj by auto
  have frame: "\<forall>b. b \<notin> set as \<longrightarrow> lookup h3 b = lookup h b"
    using xs(3) as by (auto simp: l3 dest: in_set_takeD)
  have len': "length_d d - 1 = int (length (xs @ ys))"
    using len as by simp
  have gone: "lookup h3 e = None"
    by (simp add: l3)
  show ?thesis
    unfolding res xs_def[symmetric] ys_def[symmetric] e_def[symmetric]
    using path el dist' frame len3 len' gone
    by (simp add: inv_d_def del: dpath_Cons)
qed

lemma erase_d_ok:
  assumes "inv_d h d as" "0 \<le> position" "position < length_d d"
  shows "\<exists>h' d'. erase_d position (h, d) = Returns () (h', d')
           \<and> inv_d h' d' (take (nat position) as @ drop (Suc (nat position)) as)
           \<and> elems_d h' (take (nat position) as @ drop (Suc (nat position)) as)
               = take (nat position) (elems_d h as) @ drop (Suc (nat position)) (elems_d h as)
           \<and> length h' = length h \<and> lookup h' (as ! nat position) = None
           \<and> (\<forall>b. b \<notin> set as \<longrightarrow> lookup h' b = lookup h b)"
proof (cases "position = 0")
  case True
  from assms obtain a bs where as: "as = a # bs"
    by (cases as) (auto simp: inv_d_def)
  show ?thesis
    using erase_d_front_ok[of h d a bs] assms(1) unfolding as True
    by (simp add: elems_d_def)
next
  case False
  with assms(2) obtain k where k: "position = int (Suc k)"
    by (metis nat_0_le not0_implies_Suc nat_eq_iff2 of_nat_0)
  have "Suc k < length as"
    using assms k by (simp add: inv_d_def)
  from erase_d_after_ok[OF assms(1) this] show ?thesis
    unfolding k by (simp only: nat_int)
qed

lemma dpath_cong_links:
  "(\<forall>a\<in>set as. map_option (\<lambda>n. (next_d n, prev_d n)) (lookup h' a)
        = map_option (\<lambda>n. (next_d n, prev_d n)) (lookup h a))
   \<Longrightarrow> dpath h' pr p as q = dpath h pr p as q"
proof (induction as arbitrary: pr p)
  case Nil
  show ?case by simp
next
  case (Cons a as)
  have ih: "\<And>pr p. dpath h' pr p as q = dpath h pr p as q"
    using Cons by simp
  have "map_option (\<lambda>n. (next_d n, prev_d n)) (lookup h' a)
      = map_option (\<lambda>n. (next_d n, prev_d n)) (lookup h a)"
    using Cons.prems by simp
  then show ?case
    by (cases "lookup h' a"; cases "lookup h a") (auto simp: ih)
qed

lemma nth_elems_d:
  "k < length as \<Longrightarrow> lookup h (as ! k) = Some n \<Longrightarrow> elems_d h as ! k = value_d n"
  by (simp add: elems_d_def)

lemma at_d_ok:
  assumes "inv_d h d as" "0 \<le> index" "index < length_d d"
  shows "at_d index (h, d) = Returns (elems_d h as ! nat index) (h, d)"
proof -
  from assms have p: "dpath h None (head_d d) as None" and k: "nat index < length as"
    by (simp_all add: inv_d_def)
  obtain n where n: "lookup h (as ! nat index) = Some n"
    using dpath_live[OF p, of "as ! nat index"] k by auto
  have "walk_d h 0 index (head_d d) = Some (Some (as ! nat index))"
    using walk_d_path[OF p, of "nat index" 0] k assms(2) by simp
  then show ?thesis
    using assms(2,3) n nth_elems_d[OF k n] by (simp add: at_d_def deref_def)
qed

lemma assign_at_d_ok:
  assumes "inv_d h d as" "0 \<le> index" "index < length_d d"
  shows "\<exists>h'. assign_at_d index x (h, d) = Returns () (h', d)
           \<and> inv_d h' d as \<and> elems_d h' as = (elems_d h as)[nat index := x]
           \<and> length h' = length h
           \<and> (\<forall>b. b \<notin> set as \<longrightarrow> lookup h' b = lookup h b)"
proof -
  from assms have p: "dpath h None (head_d d) as None" and k: "nat index < length as"
      and dist: "distinct as" and len: "length_d d = int (length as)"
    by (simp_all add: inv_d_def)
  define a where "a = as ! nat index"
  have a: "a \<in> set as"
    using k by (simp add: a_def)
  obtain n where n: "lookup h a = Some n"
    using dpath_live[OF p a] by auto
  define h' where "h' = h[a := Some (n\<lparr>value_d := x\<rparr>)]"
  have walk: "walk_d h 0 index (head_d d) = Some (Some a)"
    using walk_d_path[OF p, of "nat index" 0] k assms(2) by (simp add: a_def)
  have res: "assign_at_d index x (h, d) = Returns () (h', d)"
    using assms(2,3) walk n by (simp add: assign_at_d_def set_value_def h'_def)
  have l: "\<And>b. lookup h' b = (if b = a then Some (n\<lparr>value_d := x\<rparr>) else lookup h b)"
    using lookup_Some_less[OF n] by (auto simp: h'_def lookup_update)
  have "dpath h' None (head_d d) as None = dpath h None (head_d d) as None"
    using n by (intro dpath_cong_links) (auto simp: l)
  then have path: "dpath h' None (head_d d) as None"
    using p by simp
  have el: "elems_d h' as = (elems_d h as)[nat index := x]"
  proof (rule nth_equalityI)
    show "length (elems_d h' as) = length ((elems_d h as)[nat index := x])"
      by (simp add: elems_d_def)
  next
    fix i
    assume "i < length (elems_d h' as)"
    then have i: "i < length as"
      by (simp add: elems_d_def)
    have "(as ! i = a) = (i = nat index)"
      using dist i k by (auto simp: a_def nth_eq_iff_index_eq)
    then show "elems_d h' as ! i = (elems_d h as)[nat index := x] ! i"
      using i k by (auto simp: elems_d_def l nth_list_update)
  qed
  have len': "length h' = length h"
    by (simp add: h'_def)
  show ?thesis
    unfolding res using path el dist len a len'
    by (auto simp: inv_d_def l simp del: dpath_Cons)
qed

lemma print_loop_d_path:
  "dpath h pr p as None \<Longrightarrow>
   print_loop_d shw h p out = Some (Some (out @ concat (map (\<lambda>x. shw x @ '' '') (elems_d h as))))"
proof (induction as arbitrary: pr p out)
  case Nil
  then show ?case
    by (subst print_loop_d.simps) (simp add: elems_d_def)
next
  case (Cons a as)
  from Cons.prems obtain n where n: "p = Some a" "lookup h a = Some n"
      "dpath h (Some a) (next_d n) as None"
    by auto
  show ?case
    by (subst print_loop_d.simps) (simp add: n Cons.IH[OF n(3)] elems_d_def)
qed

lemma print_d_ok:
  assumes "inv_d h d as"
  shows "print_d shw (h, d)
       = Some (Returns (concat (map (\<lambda>x. shw x @ '' '') (elems_d h as)) @ [CHR 0x0A]) (h, d))"
  using assms print_loop_d_path[of h None "head_d d" as shw "[]"]
  by (simp add: print_d_def inv_d_def)

lemma iterate_d_path:
  "dpath h pr p as None \<Longrightarrow> iterate_d h p None acc = Some (Some (acc @ elems_d h as))"
proof (induction as arbitrary: pr p acc)
  case Nil
  then show ?case
    by (subst iterate_d.simps) (simp add: elems_d_def)
next
  case (Cons a as)
  from Cons.prems obtain n where n: "p = Some a" "lookup h a = Some n"
      "dpath h (Some a) (next_d n) as None"
    by auto
  show ?case
    by (subst iterate_d.simps)
      (simp add: n deref_d_def deref_def incr_d_def Cons.IH[OF n(3)] elems_d_def)
qed

lemma iterate_d_ok:
  assumes "inv_d h d as"
  shows "iterate_d h (begin_d d) (end_d d) [] = Some (Some (elems_d h as))"
  using assms iterate_d_path[of h None "head_d d" as "[]"]
  by (simp add: begin_d_def end_d_def inv_d_def)

lemma append_all_d_ok:
  assumes "inv_d h d as"
  shows "\<exists>h' d' as'. append_all_d xs (h, d) = Some (Returns () (h', d'))
           \<and> inv_d h' d' as' \<and> elems_d h' as' = elems_d h as @ xs"
  using assms
proof (induction xs arbitrary: h d as)
  case Nil
  then show ?case
    by (subst append_all_d.simps) auto
next
  case (Cons x xs)
  obtain h1 d1 where s1: "push_back_d x (h, d) = Some (Returns () (h1, d1))"
      "inv_d h1 d1 (as @ [length h])"
      "elems_d h1 (as @ [length h]) = elems_d h as @ [x]"
    using push_back_d_ok[OF Cons.prems, of x] by blast
  from Cons.IH[OF s1(2)] obtain h' d' as' where
    "append_all_d xs (h1, d1) = Some (Returns () (h', d'))" "inv_d h' d' as'"
    "elems_d h' as' = elems_d h1 (as @ [length h]) @ xs"
    by blast
  then show ?case
    using s1 by (subst append_all_d.simps) auto
qed

lemma release_path:
  assumes "dpath h pr p as None" "distinct as"
  shows "\<exists>h'. release p h = Some h' \<and> length h' = length h
           \<and> (\<forall>b. lookup h' b = (if b \<in> set as then None else lookup h b))"
  using assms
proof (induction as arbitrary: h pr p)
  case Nil
  then show ?case
    by (subst release.simps) simp
next
  case (Cons a as)
  from Cons.prems obtain n where n: "p = Some a" "lookup h a = Some n"
      "dpath h (Some a) (next_d n) as None"
    by auto
  have "dpath (destroy a h) (Some a) (next_d n) as None = dpath h (Some a) (next_d n) as None"
    using Cons.prems(2) by (intro dpath_cong) (auto simp: lookup_destroy)
  then have "dpath (destroy a h) (Some a) (next_d n) as None"
    using n(3) by simp
  from Cons.IH[OF this] Cons.prems(2) obtain h' where
    h': "release (next_d n) (destroy a h) = Some h'" "length h' = length (destroy a h)"
        "\<forall>b. lookup h' b = (if b \<in> set as then None else lookup (destroy a h) b)"
    by auto
  show ?case
    by (subst release.simps) (use n h' in \<open>auto simp: lookup_destroy length_destroy\<close>)
qed

lemma inv_d_frame:
  assumes "inv_d h d as" "\<forall>b\<in>set as. lookup h' b = lookup h b"
  shows "inv_d h' d as \<and> elems_d h' as = elems_d h as"
  using assms dpath_cong[of as h' h None "head_d d" None] elems_d_cong[of as h' h]
  by (simp add: inv_d_def)

lemma inv_d_less: "inv_d h d as \<Longrightarrow> a \<in> set as \<Longrightarrow> a < length h"
  by (auto simp: inv_d_def dest: dpath_less)

lemma copy_loop_d_ok:
  assumes "dpath h pr cur cs None" "inv_d h d bs" "set cs \<inter> set bs = {}"
  shows "\<exists>h' d' bs'. copy_loop_d cur (h, d) = Some (Returns () (h', d'))
           \<and> inv_d h' d' (bs @ bs')
           \<and> elems_d h' (bs @ bs') = elems_d h bs @ elems_d h cs
           \<and> length h \<le> length h'
           \<and> (\<forall>b\<in>set bs'. length h \<le> b)
           \<and> (\<forall>b. b \<notin> set bs \<and> b < length h \<longrightarrow> lookup h' b = lookup h b)"
  using assms
proof (induction cs arbitrary: h d bs cur pr)
  case Nil
  then have "cur = None" by simp
  then show ?case
    using Nil.prems(2) by (subst copy_loop_d.simps) (auto simp: elems_d_def intro: exI[of _ "[]"])
next
  case (Cons a cs)
  from Cons.prems(1) obtain n where n: "cur = Some a" "lookup h a = Some n"
      "dpath h (Some a) (next_d n) cs None"
    by auto
  obtain h1 d1 where s1: "push_back_d (value_d n) (h, d) = Some (Returns () (h1, d1))"
      "inv_d h1 d1 (bs @ [length h])"
      "elems_d h1 (bs @ [length h]) = elems_d h bs @ [value_d n]"
      "length h1 = Suc (length h)"
      "\<forall>b. b \<notin> set bs \<and> b \<noteq> length h \<longrightarrow> lookup h1 b = lookup h b"
    using push_back_d_ok[OF Cons.prems(2), of "value_d n"] by blast
  have live: "\<forall>b\<in>set (a # cs). b < length h"
    using Cons.prems(1) dpath_less by blast
  have same: "\<forall>b\<in>set (a # cs). lookup h1 b = lookup h b"
    using s1(5) live Cons.prems(3) by auto
  have n1: "lookup h1 a = Some n"
    using same n by simp
  have p1: "dpath h1 (Some a) (next_d n) cs None"
    using n(3) same dpath_cong[of cs h1 h "Some a" "next_d n" None] by simp
  have disj1: "set cs \<inter> set (bs @ [length h]) = {}"
    using Cons.prems(3) live by auto
  from Cons.IH[OF p1 s1(2) disj1] obtain h' d' bs' where
    r: "copy_loop_d (next_d n) (h1, d1) = Some (Returns () (h', d'))"
       "inv_d h' d' ((bs @ [length h]) @ bs')"
       "elems_d h' ((bs @ [length h]) @ bs') = elems_d h1 (bs @ [length h]) @ elems_d h1 cs"
       "length h1 \<le> length h'"
       "\<forall>b\<in>set bs'. length h1 \<le> b"
       "\<forall>b. b \<notin> set (bs @ [length h]) \<and> b < length h1 \<longrightarrow> lookup h' b = lookup h1 b"
    by blast
  have el: "elems_d h1 cs = elems_d h cs"
    using same by (intro elems_d_cong) simp
  have va: "elems_d h (a # cs) = value_d n # elems_d h cs"
    using n by (simp add: elems_d_def)
  have res: "copy_loop_d cur (h, d) = Some (Returns () (h', d'))"
    by (subst copy_loop_d.simps) (simp add: n s1(1) n1 r(1))
  have frame: "\<forall>b. b \<notin> set bs \<and> b < length h \<longrightarrow> lookup h' b = lookup h b"
    using r(6) s1(4,5) by auto
  show ?case
    unfolding res
    using r(2,3,4,5) s1(3,4) el va frame
    by (intro exI[of _ h'] exI[of _ d'] exI[of _ "length h # bs'"]) auto
qed

lemma copy_assign_d_ok:
  assumes "this \<noteq> list" "inv_d h (\<sigma> list) as" "inv_d h (\<sigma> this) bs" "set as \<inter> set bs = {}"
  shows "\<exists>h' d' bs'. copy_assign_d this list (h, \<sigma>) = Some (Returns () (h', \<sigma>(this := d')))
           \<and> inv_d h' d' bs' \<and> elems_d h' bs' = elems_d h as
           \<and> inv_d h' (\<sigma> list) as \<and> elems_d h' as = elems_d h as
           \<and> set as \<inter> set bs' = {}"
proof -
  from assms(3) have pb: "dpath h None (head_d (\<sigma> this)) bs None" "distinct bs"
    by (simp_all add: inv_d_def)
  from release_path[OF pb] obtain h1 where
    h1: "release (head_d (\<sigma> this)) h = Some h1" "length h1 = length h"
        "\<forall>b. lookup h1 b = (if b \<in> set bs then None else lookup h b)"
    by blast
  let ?d0 = "(\<sigma> this)\<lparr>head_d := None, length_d := 0\<rparr>"
  have src1: "inv_d h1 (\<sigma> list) as \<and> elems_d h1 as = elems_d h as"
    using assms(4) h1(3) by (intro inv_d_frame[OF assms(2)]) auto
  then have pa: "dpath h1 None (head_d (\<sigma> list)) as None"
    by (simp add: inv_d_def)
  have t0: "inv_d h1 ?d0 []"
    by (simp add: inv_d_def)
  from copy_loop_d_ok[OF pa t0] obtain h' d' bs' where
    r: "copy_loop_d (head_d (\<sigma> list)) (h1, ?d0) = Some (Returns () (h', d'))"
       "inv_d h' d' ([] @ bs')"
       "elems_d h' ([] @ bs') = elems_d h1 [] @ elems_d h1 as"
       "\<forall>b\<in>set bs'. length h1 \<le> b"
       "\<forall>b. b \<notin> set [] \<and> b < length h1 \<longrightarrow> lookup h' b = lookup h1 b"
    by auto
  have live: "\<forall>b\<in>set as. b < length h1"
    using inv_d_less[OF assms(2)] h1(2) by simp
  have src': "inv_d h' (\<sigma> list) as \<and> elems_d h' as = elems_d h1 as"
    using r(5) live by (intro inv_d_frame) (use src1 in auto)
  have disj: "set as \<inter> set bs' = {}"
    using r(4) live by fastforce
  have res: "copy_assign_d this list (h, \<sigma>) = Some (Returns () (h', \<sigma>(this := d')))"
    using assms(1) h1(1) r(1) by (simp add: copy_assign_d_def)
  show ?thesis
    unfolding res using r(2,3) src' src1 disj
    by (intro exI[of _ h'] exI[of _ d'] exI[of _ bs']) (simp add: elems_d_def)
qed

lemma move_assign_d_ok:
  assumes "this \<noteq> list" "inv_d h (\<sigma> list) as" "inv_d h (\<sigma> this) bs" "set as \<inter> set bs = {}"
  shows "\<exists>h'. move_assign_d this list (h, \<sigma>)
             = Returns () (h', \<sigma>(this := \<sigma> list, list := dlist_ctor))
           \<and> inv_d h' (\<sigma> list) as \<and> elems_d h' as = elems_d h as
           \<and> inv_d h' dlist_ctor []"
proof -
  from assms(3) have pb: "dpath h None (head_d (\<sigma> this)) bs None" "distinct bs"
    by (simp_all add: inv_d_def)
  from release_path[OF pb] obtain h1 where
    h1: "release (head_d (\<sigma> this)) h = Some h1" "length h1 = length h"
        "\<forall>b. lookup h1 b = (if b \<in> set bs then None else lookup h b)"
    by blast
  have src1: "inv_d h1 (\<sigma> list) as \<and> elems_d h1 as = elems_d h as"
    using assms(4) h1(3) by (intro inv_d_frame[OF assms(2)]) auto
  have rec: "\<lparr>head_d = head_d (\<sigma> list), length_d = length_d (\<sigma> list)\<rparr> = \<sigma> list"
    by simp
  have res: "move_assign_d this list (h, \<sigma>)
      = Returns () (h1, \<sigma>(this := \<sigma> list, list := dlist_ctor))"
    using assms(1) h1(1) by (simp add: move_assign_d_def dlist_ctor_def rec)
  show ?thesis
    unfolding res using src1 by (auto simp: inv_d_def dlist_ctor_def)
qed

lemma mutate_d_frame:
  assumes "inv_d h d bs"
  shows "\<exists>h' d' bs'.
           (mutate_d m (h, d) = Some (Returns () (h', d'))
            \<or> mutate_d m (h, d) = Some (Throws out_of_range (h', d')))
           \<and> inv_d h' d' bs'
           \<and> (\<forall>b. b \<notin> set bs \<and> b < length h \<longrightarrow> lookup h' b = lookup h b)"
proof (cases m)
  case (Push_back x)
  from push_back_d_ok[OF assms, of x] show ?thesis
    unfolding Push_back mutate_d.simps by (metis nat_neq_iff)
next
  case (Insert x position)
  show ?thesis
  proof (cases "0 \<le> position \<and> position \<le> length_d d")
    case True
    from insert_d_ok[OF assms, of position x] True show ?thesis
      unfolding Insert mutate_d.simps by (metis nat_neq_iff option.inject)
  next
    case False
    then have "insert_d x position (h, d) = Throws out_of_range (h, d)"
      by (auto simp: insert_d_def)
    then show ?thesis
      unfolding Insert mutate_d.simps using assms by auto
  qed
next
  case (Erase position)
  show ?thesis
  proof (cases "0 \<le> position \<and> position < length_d d")
    case True
    from erase_d_ok[OF assms, of position] True show ?thesis
      unfolding Erase mutate_d.simps by (metis option.inject)
  next
    case False
    then have "erase_d position (h, d) = Throws out_of_range (h, d)"
      by (auto simp: erase_d_def)
    then show ?thesis
      unfolding Erase mutate_d.simps using assms by auto
  qed
next
  case (Assign_at index x)
  show ?thesis
  proof (cases "0 \<le> index \<and> index < length_d d")
    case True
    from assign_at_d_ok[OF assms, of index x] True show ?thesis
      unfolding Assign_at mutate_d.simps by (metis option.inject)
  next
    case False
    then have "assign_at_d index x (h, d) = Throws out_of_range (h, d)"
      by (auto simp: assign_at_d_def)
    then show ?thesis
      unfolding Assign_at mutate_d.simps using assms by auto
  qed
qed

lemma shift_right_none: "shift_right i i d = Some d"
  by (subst shift_right.simps) simp

lemma insert_v_at_size:
  assumes "0 \<le> size_v v"
  shows "insert_v val (size_v v) v = push_back_v val v"
proof (cases "length_v v = capacity v")
  case False
  then show ?thesis
    using assms by (simp add: insert_v_def push_back_v_def size_v_def shift_right_none)
next
  case True
  have len: "\<And>v'. resize v = Returns () v' \<Longrightarrow> length_v v' = length_v v"
    by (auto simp: resize_def Let_def split: if_splits option.splits)
  show ?thesis
  proof (cases "resize v")
    case (Returns u v')
    then show ?thesis
      using assms True len[of v']
      by (cases "fetch val True (data v')")
        (simp_all add: insert_v_def push_back_v_def size_v_def shift_right_none)
  next
    case (Throws e s)
    then show ?thesis
      using assms True by (simp add: insert_v_def push_back_v_def size_v_def)
  next
    case Undefined
    then show ?thesis
      using assms True by (simp add: insert_v_def push_back_v_def size_v_def)
  qed
qed

lemma insert_d_at_size:
  assumes "inv_d h d as"
  shows "Some (insert_d x (size_d d) (h, d)) = push_back_d x (h, d)"
proof -
  let ?new = "length h"
  let ?h1 = "h @ [Some \<lparr>value_d = x, next_d = None, prev_d = None\<rparr>]"
  from assms have p: "dpath h None (head_d d) as None" and dist: "distinct as"
      and len: "length_d d = int (length as)"
    by (simp_all add: inv_d_def)
  have fresh: "?new \<notin> set as"
    using p by (rule dpath_fresh)
  show ?thesis
  proof (cases as)
    case Nil
    with p have "head_d d = None" by simp
    then show ?thesis using Nil len
      by (simp add: insert_d_def push_back_d_def make_shared_def size_d_def)
  next
    case (Cons a bs)
    with p have hd: "head_d d = Some a" by auto
    have ne: "as \<noteq> []" using Cons by simp
    define k where "k = length bs"
    define cur where "cur = last as"
    have k: "k < length as" "as ! k = cur" "length_d d = int (Suc k)"
      using Cons len by (auto simp: k_def cur_def last_conv_nth)
    have cur_in: "cur \<in> set as"
      using ne by (simp add: cur_def)
    obtain c where c: "lookup h cur = Some c" "next_d c = None"
      using dpath_last_next[OF p ne] by (auto simp: cur_def)
    have cn: "cur \<noteq> ?new" "cur < length h"
      using cur_in fresh c lookup_Some_less by auto
    have p1: "dpath ?h1 None (Some a) as None"
      using p hd fresh by (subst dpath_cong[of as _ h]) (auto simp: lookup_append)
    have last: "last_d ?h1 a = Some (Some cur)"
      using last_d_path[of ?h1 None a bs] p1 Cons by (simp add: cur_def)
    have walk: "walk_d ?h1 0 (int k) (head_d d) = Some (Some cur)"
      using walk_d_path[of ?h1 None "head_d d" as k 0] p1 hd k by simp
    have d1: "deref ?h1 (Some cur) = Some c"
      using c cn by (simp add: deref_def lookup_append)
    have s2: "set_next (Some ?new) None ?h1 = Some ?h1"
      by (simp add: set_next_def lookup_append)
    have pos: "\<not> int (Suc k) > length_d d" "\<not> int (Suc k) < 0" "int (Suc k) \<noteq> 0"
        "int (Suc k) - 1 = int k"
      using k by simp_all
    have "insert_d x (int (Suc k)) (h, d)
        = (case do { h4 \<leftarrow> set_prev (Some ?new) (Some cur) ?h1;
                     set_next (Some cur) (Some ?new) h4 } of
             None \<Rightarrow> Undefined
           | Some h5 \<Rightarrow> Returns () (h5, d\<lparr>length_d := length_d d + 1\<rparr>))"
      unfolding insert_d_def make_shared_def prod.case
      by (simp only: pos if_False walk d1 s2 c bind.bind_lunit option.case simp_thms)
    moreover have "push_back_d x (h, d)
        = Some (case do { h4 \<leftarrow> set_prev (Some ?new) (Some cur) ?h1;
                          set_next (Some cur) (Some ?new) h4 } of
                  None \<Rightarrow> Undefined
                | Some h5 \<Rightarrow> Returns () (h5, d\<lparr>length_d := length_d d + 1\<rparr>))"
      using hd last by (simp add: push_back_d_def make_shared_def split: option.splits)
    ultimately show ?thesis
      using k(3) by (simp add: size_d_def)
  qed
qed

lemma dpath_prev_nth:
  "dpath h pr p as q \<Longrightarrow> i < length as \<Longrightarrow>
   \<exists>n. lookup h (as ! i) = Some n \<and> prev_d n = (if i = 0 then pr else Some (as ! (i - 1)))"
proof (induction as arbitrary: pr p i)
  case Nil
  then show ?case by simp
next
  case (Cons a as)
  from Cons.prems obtain n where n: "lookup h a = Some n" "prev_d n = pr"
      "dpath h (Some a) (next_d n) as q"
    by auto
  show ?case
  proof (cases i)
    case 0
    then show ?thesis using n by simp
  next
    case (Suc j)
    then have "j < length as" using Cons.prems by simp
    from Cons.IH[OF n(3) this] show ?thesis
      using Suc by (cases j) auto
  qed
qed

lemma inv_d_back_links: "inv_d h d as \<Longrightarrow> back_links_ok h as"
  by (auto simp: inv_d_def intro: dpath_back_links)

lemma mutation_keeps_other:
  assumes "on_object b f \<sigma> = Returns r \<sigma>' \<or> on_object b f \<sigma> = Throws e \<sigma>'" "a \<noteq> b"
  shows "\<sigma>' a = \<sigma> a"
  using assms by (auto simp: on_object_def split: outcome.splits)

lemma mutation_keeps_other_d:
  assumes "inv_d h (\<sigma> b) bs" "inv_d h (\<sigma> a) as" "set as \<inter> set bs = {}" "a \<noteq> b"
  shows "\<exists>h' d'. (on_object_d b (mutate_d m) (h, \<sigma>) = Some (Returns () (h', \<sigma>(b := d')))
             \<or> on_object_d b (mutate_d m) (h, \<sigma>) = Some (Throws out_of_range (h', \<sigma>(b := d'))))
           \<and> inv_d h' (\<sigma> a) as \<and> elems_d h' as = elems_d h as"
proof -
  from mutate_d_frame[OF assms(1), of m] obtain h' d' bs' where
    r: "mutate_d m (h, \<sigma> b) = Some (Returns () (h', d'))
        \<or> mutate_d m (h, \<sigma> b) = Some (Throws out_of_range (h', d'))"
       "\<forall>c. c \<notin> set bs \<and> c < length h \<longrightarrow> lookup h' c = lookup h c"
    by blast
  have "\<forall>c\<in>set as. lookup h' c = lookup h c"
    using r(2) assms(3) inv_d_less[OF assms(2)] by auto
  from inv_d_frame[OF assms(2) this] r(1) show ?thesis
    by (auto simp: on_object_d_def)
qed

lemma inv_sample_v: "inv_v sample_v" "0 < capacity sample_v" "elems_v sample_v = [10, 20, 30]"
  by (simp_all add: sample_v_def inv_v_def elems_v_def)

lemma inv_sample_s: "inv_s sample_s" "elems_s sample_s = [10, 20, 30]"
  by (simp_all add: sample_s_def inv_s_def elems_s_def)

lemma lookup_sample_h:
  "lookup sample_h 0 = Some \<lparr>value_d = 10, next_d = Some 1, prev_d = None\<rparr>"
  "lookup sample_h 1 = Some \<lparr>value_d = 20, next_d = Some 2, prev_d = Some 0\<rparr>"
  "lookup sample_h (Suc 0) = Some \<lparr>value_d = 20, next_d = Some 2, prev_d = Some 0\<rparr>"
  "lookup sample_h 2 = Some \<lparr>value_d = 30, next_d = None, prev_d = Some 1\<rparr>"
  "length sample_h = 3"
  by (simp_all add: sample_h_def lookup_def)

lemma inv_sample_d: "inv_d sample_h sample_d [0, 1, 2]" "elems_d sample_h [0, 1, 2] = [10, 20, 30]"
  by (simp_all add: inv_d_def sample_d_def lookup_sample_h elems_d_def)

lemma inv_d_ctor: "inv_d h dlist_ctor []"
  by (simp add: inv_d_def dlist_ctor_def)

section \<open>Properties stated by the specification\<close>

text \<open>
  C1. In a \<open>dlist\<close> whose nodes \<open>as\<close> satisfy the data model, every node with a
  successor is what the successor's backward reference resolves to, and \<open>push_back\<close>,
  \<open>insert\<close> at every valid position, \<open>erase\<close> at every valid position and copy
  assignment return with a list that satisfies the data model again. After erasing the
  head the new head has no backward reference; after erasing an interior node the
  backward reference of its successor is the predecessor.
\<close>

theorem back_links_invariant_preserved:
  assumes "inv_d h d as"
  shows
    "back_links_ok h as \<and>
     (\<exists>h' d'. push_back_d x (h, d) = Some (Returns () (h', d')) \<and>
        inv_d h' d' (as @ [length h]) \<and> back_links_ok h' (as @ [length h])) \<and>
     (0 \<le> position \<and> position \<le> size_d d \<longrightarrow>
        (\<exists>h' d'. insert_d x position (h, d) = Returns () (h', d') \<and>
           inv_d h' d' (take (nat position) as @ [length h] @ drop (nat position) as) \<and>
           back_links_ok h' (take (nat position) as @ [length h] @ drop (nat position) as))) \<and>
     (0 \<le> position \<and> position < size_d d \<longrightarrow>
        (\<exists>h' d'. erase_d position (h, d) = Returns () (h', d') \<and>
           inv_d h' d' (take (nat position) as @ drop (Suc (nat position)) as) \<and>
           back_links_ok h' (take (nat position) as @ drop (Suc (nat position)) as) \<and>
           (position = 0 \<and> 1 < size_d d \<longrightarrow>
              head_d d' = Some (as ! 1) \<and>
              (\<exists>n. lookup h' (as ! 1) = Some n \<and> prev_d n = None)) \<and>
           (0 < position \<and> position + 1 < size_d d \<longrightarrow>
              (\<exists>n. lookup h' (as ! nat (position + 1)) = Some n \<and>
                 prev_d n = Some (as ! nat (position - 1)) \<and>
                 resolve h' (prev_d n) = Some (as ! nat (position - 1)))))) \<and>
     (this \<noteq> list \<and> \<sigma> list = d \<and> inv_d h (\<sigma> this) bs \<and> set as \<inter> set bs = {} \<longrightarrow>
        (\<exists>h' d' bs'. copy_assign_d this list (h, \<sigma>) = Some (Returns () (h', \<sigma>(this := d'))) \<and>
           inv_d h' d' bs' \<and> back_links_ok h' bs' \<and>
           inv_d h' d as \<and> back_links_ok h' as))"
proof -
  have len: "length_d d = int (length as)"
    using assms by (simp add: inv_d_def)
  have c0: "back_links_ok h as"
    using assms by (rule inv_d_back_links)
  have c1: "\<exists>h' d'. push_back_d x (h, d) = Some (Returns () (h', d')) \<and>
      inv_d h' d' (as @ [length h]) \<and> back_links_ok h' (as @ [length h])"
    using push_back_d_ok[OF assms, of x] inv_d_back_links by blast
  have c2: "\<exists>h' d'. insert_d x position (h, d) = Returns () (h', d') \<and>
      inv_d h' d' (take (nat position) as @ [length h] @ drop (nat position) as) \<and>
      back_links_ok h' (take (nat position) as @ [length h] @ drop (nat position) as)"
    if "0 \<le> position \<and> position \<le> size_d d"
    using insert_d_ok[OF assms, of position x] that inv_d_back_links
    unfolding size_d_def by blast
  have c3: "\<exists>h' d'. erase_d position (h, d) = Returns () (h', d') \<and>
      inv_d h' d' (take (nat position) as @ drop (Suc (nat position)) as) \<and>
      back_links_ok h' (take (nat position) as @ drop (Suc (nat position)) as) \<and>
      (position = 0 \<and> 1 < size_d d \<longrightarrow>
         head_d d' = Some (as ! 1) \<and>
         (\<exists>n. lookup h' (as ! 1) = Some n \<and> prev_d n = None)) \<and>
      (0 < position \<and> position + 1 < size_d d \<longrightarrow>
         (\<exists>n. lookup h' (as ! nat (position + 1)) = Some n \<and>
            prev_d n = Some (as ! nat (position - 1)) \<and>
            resolve h' (prev_d n) = Some (as ! nat (position - 1))))"
    if pos: "0 \<le> position \<and> position < size_d d"
  proof -
    let ?as' = "take (nat position) as @ drop (Suc (nat position)) as"
    from erase_d_ok[OF assms, of position] pos obtain h' d' where
      r: "erase_d position (h, d) = Returns () (h', d')" "inv_d h' d' ?as'"
      unfolding size_d_def by blast
    have p': "dpath h' None (head_d d') ?as' None"
      using r(2) by (simp add: inv_d_def)
    have k: "nat position < length as"
      using pos len by (auto simp: size_d_def)
    have front: "head_d d' = Some (as ! 1) \<and> (\<exists>n. lookup h' (as ! 1) = Some n \<and> prev_d n = None)"
      if "position = 0 \<and> 1 < size_d d"
    proof -
      from that len obtain a b cs where as: "as = a # b # cs"
        by (cases as; cases "tl as") (auto simp: size_d_def)
      show ?thesis
        using p' that unfolding as by auto
    qed
    have inner: "\<exists>n. lookup h' (as ! nat (position + 1)) = Some n \<and>
        prev_d n = Some (as ! nat (position - 1)) \<and>
        resolve h' (prev_d n) = Some (as ! nat (position - 1))"
      if "0 < position \<and> position + 1 < size_d d"
    proof -
      define j where "j = nat position"
      have j: "0 < j" "Suc j < length as" "nat (position + 1) = Suc j" "nat (position - 1) = j - 1"
        using that len by (auto simp: j_def size_d_def)
      have n1: "?as' ! j = as ! Suc j" "?as' ! (j - 1) = as ! (j - 1)" "j < length ?as'"
        using j by (auto simp: j_def[symmetric] nth_append min_def)
      from dpath_prev_nth[OF p' n1(3)] j(1) obtain n where
        n: "lookup h' (?as' ! j) = Some n" "prev_d n = Some (?as' ! (j - 1))"
        by auto
      have "j - 1 < length ?as'"
        using n1(3) by simp
      from dpath_prev_nth[OF p' this] obtain m where "lookup h' (?as' ! (j - 1)) = Some m"
        by auto
      then have "resolve h' (prev_d n) = Some (?as' ! (j - 1))"
        using n(2) by (simp add: resolve_def)
      then show ?thesis
        using n unfolding n1(1,2) j(3,4) by simp
    qed
    show ?thesis
      using r inv_d_back_links[OF r(2)] front inner by blast
  qed
  have c4: "\<exists>h' d' bs'. copy_assign_d this list (h, \<sigma>) = Some (Returns () (h', \<sigma>(this := d'))) \<and>
      inv_d h' d' bs' \<and> back_links_ok h' bs' \<and> inv_d h' d as \<and> back_links_ok h' as"
    if "this \<noteq> list \<and> \<sigma> list = d \<and> inv_d h (\<sigma> this) bs \<and> set as \<inter> set bs = {}"
  proof -
    have src: "inv_d h (\<sigma> list) as"
      using assms that by simp
    have "this \<noteq> list" "inv_d h (\<sigma> this) bs" "set as \<inter> set bs = {}"
      using that by simp_all
    from copy_assign_d_ok[of this list h \<sigma> as bs, OF this(1) src this(2,3)] that show ?thesis
      using inv_d_back_links by blast
  qed
  show ?thesis
    using c0 c1 c2 c3 c4 by blast
qed

theorem back_links_invariant_preserved_witness:
  "inv_d sample_h sample_d [0, 1, 2] \<and>
   back_links_ok sample_h [0, 1, 2] \<and>
   (\<exists>h' d'. push_back_d 40 (sample_h, sample_d) = Some (Returns () (h', d')) \<and>
      inv_d h' d' [0, 1, 2, 3] \<and> back_links_ok h' [0, 1, 2, 3]) \<and>
   (\<exists>h' d'. insert_d 40 1 (sample_h, sample_d) = Returns () (h', d') \<and>
      inv_d h' d' [0, 3, 1, 2] \<and> back_links_ok h' [0, 3, 1, 2]) \<and>
   (\<exists>h' d'. erase_d 1 (sample_h, sample_d) = Returns () (h', d') \<and>
      inv_d h' d' [0, 2] \<and> back_links_ok h' [0, 2] \<and>
      (\<exists>n. lookup h' 2 = Some n \<and> prev_d n = Some 0 \<and> resolve h' (prev_d n) = Some 0)) \<and>
   (\<exists>h' d'. erase_d 0 (sample_h, sample_d) = Returns () (h', d') \<and>
      inv_d h' d' [1, 2] \<and> head_d d' = Some 1 \<and>
      (\<exists>n. lookup h' 1 = Some n \<and> prev_d n = None)) \<and>
   (\<exists>h' d' bs'. copy_assign_d 1 0 (sample_h, sample_ds) = Some (Returns () (h', sample_ds(1 := d'))) \<and>
      inv_d h' d' bs' \<and> back_links_ok h' bs' \<and>
      inv_d h' sample_d [0, 1, 2] \<and> back_links_ok h' [0, 1, 2])"
proof -
  note i = inv_sample_d(1)
  have s: "size_d sample_d = 3" "length sample_h = 3"
    by (simp_all add: size_d_def sample_d_def sample_h_def)
  have st: "sample_ds 0 = sample_d" "sample_ds 1 = dlist_ctor" "sample_ds (Suc 0) = dlist_ctor"
    by (simp_all add: sample_ds_def)
  have e: "inv_d sample_h (sample_ds 1) []"
    by (simp add: st inv_d_ctor)
  have a: "back_links_ok sample_h [0, 1, 2]"
    using back_links_invariant_preserved[OF i] by blast
  have b: "\<exists>h' d'. push_back_d 40 (sample_h, sample_d) = Some (Returns () (h', d')) \<and>
      inv_d h' d' [0, 1, 2, 3] \<and> back_links_ok h' [0, 1, 2, 3]"
    using back_links_invariant_preserved[OF i, where x = 40] by (simp add: s)
  have c: "\<exists>h' d'. insert_d 40 1 (sample_h, sample_d) = Returns () (h', d') \<and>
      inv_d h' d' [0, 3, 1, 2] \<and> back_links_ok h' [0, 3, 1, 2]"
    using back_links_invariant_preserved[OF i, where x = 40 and position = 1] by (simp add: s)
  have d: "\<exists>h' d'. erase_d 1 (sample_h, sample_d) = Returns () (h', d') \<and>
      inv_d h' d' [0, 2] \<and> back_links_ok h' [0, 2] \<and>
      (\<exists>n. lookup h' 2 = Some n \<and> prev_d n = Some 0 \<and> resolve h' (prev_d n) = Some 0)"
    using back_links_invariant_preserved[OF i, where position = 1] by (simp add: s)
  have f: "\<exists>h' d'. erase_d 0 (sample_h, sample_d) = Returns () (h', d') \<and>
      inv_d h' d' [1, 2] \<and> head_d d' = Some 1 \<and>
      (\<exists>n. lookup h' 1 = Some n \<and> prev_d n = None)"
    using back_links_invariant_preserved[OF i, where position = 0] by (simp add: s) blast
  have g: "\<exists>h' d' bs'. copy_assign_d 1 0 (sample_h, sample_ds) = Some (Returns () (h', sample_ds(1 := d'))) \<and>
      inv_d h' d' bs' \<and> back_links_ok h' bs' \<and>
      inv_d h' sample_d [0, 1, 2] \<and> back_links_ok h' [0, 1, 2]"
    using back_links_invariant_preserved[OF i, where \<sigma> = sample_ds and this = 1 and list = 0
        and bs = "[]"] e
    by (simp add: st)
  show ?thesis
    using i a b c d f g by blast
qed


text \<open>
  C2. In all three containers a position or index outside the valid range makes \<open>erase\<close>,
  \<open>operator[]\<close> and \<open>insert\<close> throw \<open>std::out_of_range\<close>, and the state when the
  exception leaves the call is the state before the call: size and sequence are unchanged.
  For the vector the element \<open>val\<close> of \<open>insert\<close> is any reference, into the vector or not.
  The four calls \<open>erase(size())\<close>, \<open>erase(-1)\<close>, \<open>at(size())\<close> and
  \<open>insert(x, size() + 1)\<close> are instances.
\<close>

theorem out_of_range_leaves_container_unchanged:
  fixes v :: "'a myvector" and l :: "'a slist" and s :: "'a heap \<times> dlist"
  shows
    "(position < 0 \<or> size_v v \<le> position \<longrightarrow> erase_v position v = Throws out_of_range v) \<and>
     (index < 0 \<or> size_v v \<le> index \<longrightarrow>
        at_v index v = Throws out_of_range v \<and> assign_at_v index x v = Throws out_of_range v) \<and>
     (position < 0 \<or> size_v v < position \<longrightarrow> insert_v val position v = Throws out_of_range v) \<and>
     erase_v (size_v v) v = Throws out_of_range v \<and>
     erase_v (- 1) v = Throws out_of_range v \<and>
     at_v (size_v v) v = Throws out_of_range v \<and>
     insert_v val (size_v v + 1) v = Throws out_of_range v \<and>
     (position < 0 \<or> size_s l \<le> position \<longrightarrow> erase_s position l = Throws out_of_range l) \<and>
     (index < 0 \<or> size_s l \<le> index \<longrightarrow>
        at_s index l = Throws out_of_range l \<and> assign_at_s index x l = Throws out_of_range l) \<and>
     (position < 0 \<or> size_s l < position \<longrightarrow> insert_s x position l = Throws out_of_range l) \<and>
     erase_s (size_s l) l = Throws out_of_range l \<and>
     erase_s (- 1) l = Throws out_of_range l \<and>
     at_s (size_s l) l = Throws out_of_range l \<and>
     insert_s x (size_s l + 1) l = Throws out_of_range l \<and>
     (position < 0 \<or> size_d (snd s) \<le> position \<longrightarrow> erase_d position s = Throws out_of_range s) \<and>
     (index < 0 \<or> size_d (snd s) \<le> index \<longrightarrow>
        at_d index s = Throws out_of_range s \<and> assign_at_d index x s = Throws out_of_range s) \<and>
     (position < 0 \<or> size_d (snd s) < position \<longrightarrow> insert_d x position s = Throws out_of_range s) \<and>
     erase_d (size_d (snd s)) s = Throws out_of_range s \<and>
     erase_d (- 1) s = Throws out_of_range s \<and>
     at_d (size_d (snd s)) s = Throws out_of_range s \<and>
     insert_d x (size_d (snd s) + 1) s = Throws out_of_range s"
proof -
  have vec: "\<And>p. p < 0 \<or> size_v v \<le> p \<Longrightarrow> erase_v p v = Throws out_of_range v"
      "\<And>i. i < 0 \<or> size_v v \<le> i \<Longrightarrow> at_v i v = Throws out_of_range v"
      "\<And>i. i < 0 \<or> size_v v \<le> i \<Longrightarrow> assign_at_v i x v = Throws out_of_range v"
      "\<And>p. p < 0 \<or> size_v v < p \<Longrightarrow> insert_v val p v = Throws out_of_range v"
    by (auto simp: erase_v_def at_v_def assign_at_v_def insert_v_def size_v_def)
  have sl: "\<And>p. p < 0 \<or> size_s l \<le> p \<Longrightarrow> erase_s p l = Throws out_of_range l"
      "\<And>i. i < 0 \<or> size_s l \<le> i \<Longrightarrow> at_s i l = Throws out_of_range l"
      "\<And>i. i < 0 \<or> size_s l \<le> i \<Longrightarrow> assign_at_s i x l = Throws out_of_range l"
      "\<And>p. p < 0 \<or> size_s l < p \<Longrightarrow> insert_s x p l = Throws out_of_range l"
    by (auto simp: erase_s_def at_s_def assign_at_s_def insert_s_def size_s_def)
  obtain h d where s: "s = (h, d)"
    by (cases s)
  have dl: "\<And>p. p < 0 \<or> size_d (snd s) \<le> p \<Longrightarrow> erase_d p s = Throws out_of_range s"
      "\<And>i. i < 0 \<or> size_d (snd s) \<le> i \<Longrightarrow> at_d i s = Throws out_of_range s"
      "\<And>i. i < 0 \<or> size_d (snd s) \<le> i \<Longrightarrow> assign_at_d i x s = Throws out_of_range s"
      "\<And>p. p < 0 \<or> size_d (snd s) < p \<Longrightarrow> insert_d x p s = Throws out_of_range s"
    by (auto simp: s erase_d_def at_d_def assign_at_d_def insert_d_def size_d_def)
  show ?thesis
    by (simp add: vec sl dl)
qed

theorem out_of_range_leaves_container_unchanged_witness:
  "size_v sample_v \<le> 3 \<and> erase_v 3 sample_v = Throws out_of_range sample_v \<and>
   at_v 3 sample_v = Throws out_of_range sample_v \<and>
   size_v sample_v < 4 \<and> insert_v (Value 40) 4 sample_v = Throws out_of_range sample_v \<and>
   size_s sample_s \<le> 3 \<and> erase_s 3 sample_s = Throws out_of_range sample_s \<and>
   at_s 3 sample_s = Throws out_of_range sample_s \<and>
   size_s sample_s < 4 \<and> insert_s 40 4 sample_s = Throws out_of_range sample_s \<and>
   size_d sample_d \<le> 3 \<and> erase_d 3 (sample_h, sample_d) = Throws out_of_range (sample_h, sample_d) \<and>
   at_d 3 (sample_h, sample_d) = Throws out_of_range (sample_h, sample_d) \<and>
   size_d sample_d < 4 \<and>
   insert_d 40 4 (sample_h, sample_d) = Throws out_of_range (sample_h, sample_d)"
proof -
  have s: "size_v sample_v = 3" "size_s sample_s = 3" "size_d sample_d = 3"
    by (simp_all add: size_v_def size_s_def size_d_def sample_v_def sample_s_def sample_d_def)
  show ?thesis
    using out_of_range_leaves_container_unchanged
      [where position = 3 and index = 3 and v = sample_v and l = sample_s
         and s = "(sample_h, sample_d)" and x = 40 and val = "Value 40"]
      out_of_range_leaves_container_unchanged
      [where position = 4 and index = 3 and v = sample_v and l = sample_s
         and s = "(sample_h, sample_d)" and x = 40 and val = "Value 40"]
    by (simp add: s)
qed

text \<open>
  C3. \<open>push_back\<close> and \<open>insert\<close> double the capacity when the vector is full, and the
  claim adds that a capacity of 0 grows to 1. The code only doubles: on the vector a move
  has emptied (null buffer, capacity 0, length 0) \<open>resize\<close> leaves the capacity at 0 and
  allocates an array of no cells, and the store that follows writes past its end. Lemmas
  \<open>push_back_v_ok\<close> and \<open>insert_v_ok\<close> above give the growth the claim describes for
  every vector of capacity at least 1 that holds fewer than \<open>2 ^ 30\<close> elements.
\<close>

theorem append_to_moved_from_vector_overruns:
  "snd (move_ctor_v myvector_ctor) = \<lparr>data = Null, capacity = 0, length_v = 0\<rparr> \<and>
   resize (snd (move_ctor_v myvector_ctor))
     = Returns () \<lparr>data = (Array [] :: 'a array_ptr), capacity = 0, length_v = 0\<rparr> \<and>
   push_back_v (val :: 'a arg) (snd (move_ctor_v myvector_ctor)) = Undefined \<and>
   insert_v val 0 (snd (move_ctor_v myvector_ctor)) = Undefined"
  by (cases val)
    (simp_all add: move_ctor_v_def resize_def int32_def copy_loop_none new_array_def
      push_back_v_def insert_v_def shift_right_none)

text \<open>
  C4. Move construction and move assignment give the target the whole state of the
  source, so its sequence is the source's sequence before the move, and leave the source
  with size 0 and an empty sequence: a null buffer with capacity 0 and length 0 for the
  vector, the state of a newly constructed list for the two lists. Move assignment of a
  \<open>dlist\<close> first releases the nodes the target owned.
\<close>

theorem move_transfers_state_and_empties_source:
  "fst (move_ctor_v v) = v \<and> elems_v (fst (move_ctor_v v)) = elems_v v \<and>
   snd (move_ctor_v v) = \<lparr>data = Null, capacity = 0, length_v = 0\<rparr> \<and>
   size_v (snd (move_ctor_v v)) = 0 \<and> elems_v (snd (move_ctor_v v)) = [] \<and>
   inv_v (snd (move_ctor_v v)) \<and>
   (this \<noteq> other \<longrightarrow>
      move_assign_v this other \<sigma>v
        = Returns () (\<sigma>v(this := \<sigma>v other, other := \<lparr>data = Null, capacity = 0, length_v = 0\<rparr>))) \<and>
   fst (move_ctor_s l) = l \<and> elems_s (fst (move_ctor_s l)) = elems_s l \<and>
   snd (move_ctor_s l) = slist_ctor \<and>
   size_s (slist_ctor :: 'b slist) = 0 \<and> elems_s (slist_ctor :: 'b slist) = [] \<and>
   inv_s (slist_ctor :: 'b slist) \<and>
   (this \<noteq> other \<longrightarrow>
      move_assign_s this other \<sigma>s = Returns () (\<sigma>s(this := \<sigma>s other, other := slist_ctor))) \<and>
   fst (move_ctor_d d) = d \<and> snd (move_ctor_d d) = dlist_ctor \<and> size_d dlist_ctor = 0 \<and>
   (this \<noteq> other \<and> inv_d h (\<sigma>d other) as \<and> inv_d h (\<sigma>d this) bs \<and> set as \<inter> set bs = {} \<longrightarrow>
      (\<exists>h'. move_assign_d this other (h, \<sigma>d)
               = Returns () (h', \<sigma>d(this := \<sigma>d other, other := dlist_ctor)) \<and>
         inv_d h' (\<sigma>d other) as \<and> elems_d h' as = elems_d h as \<and> inv_d h' dlist_ctor []))"
proof -
  have v: "fst (move_ctor_v v) = v" "snd (move_ctor_v v) = \<lparr>data = Null, capacity = 0, length_v = 0\<rparr>"
    by (simp_all add: move_ctor_v_def)
  have v0: "size_v \<lparr>data = Null, capacity = 0, length_v = 0\<rparr> = 0"
      "elems_v \<lparr>data = Null, capacity = 0, length_v = 0\<rparr> = ([] :: 'a list)"
      "inv_v \<lparr>data = Null, capacity = 0, length_v = 0\<rparr>"
    by (simp_all add: size_v_def elems_v_def inv_v_def)
  have rv: "\<lparr>data = data (\<sigma>v other), capacity = capacity (\<sigma>v other),
      length_v = length_v (\<sigma>v other)\<rparr> = \<sigma>v other"
    by simp
  have va: "this \<noteq> other \<Longrightarrow> move_assign_v this other \<sigma>v
      = Returns () (\<sigma>v(this := \<sigma>v other, other := \<lparr>data = Null, capacity = 0, length_v = 0\<rparr>))"
    by (simp add: move_assign_v_def rv)
  have s: "fst (move_ctor_s l) = l" "snd (move_ctor_s l) = slist_ctor"
    by (simp_all add: move_ctor_s_def slist_ctor_def)
  have s0: "size_s (slist_ctor :: 'b slist) = 0" "elems_s (slist_ctor :: 'b slist) = []"
      "inv_s (slist_ctor :: 'b slist)"
    by (simp_all add: size_s_def elems_s_def inv_s_def slist_ctor_def)
  have rs: "\<lparr>head_s = head_s (\<sigma>s other), length_s = length_s (\<sigma>s other)\<rparr> = \<sigma>s other"
    by simp
  have sa: "this \<noteq> other \<Longrightarrow> move_assign_s this other \<sigma>s
      = Returns () (\<sigma>s(this := \<sigma>s other, other := slist_ctor))"
    by (simp add: move_assign_s_def rs slist_ctor_def)
  have d: "fst (move_ctor_d d) = d" "snd (move_ctor_d d) = dlist_ctor" "size_d dlist_ctor = 0"
    by (simp_all add: move_ctor_d_def dlist_ctor_def size_d_def)
  have da: "\<exists>h'. move_assign_d this other (h, \<sigma>d)
        = Returns () (h', \<sigma>d(this := \<sigma>d other, other := dlist_ctor)) \<and>
      inv_d h' (\<sigma>d other) as \<and> elems_d h' as = elems_d h as \<and> inv_d h' dlist_ctor []"
    if "this \<noteq> other \<and> inv_d h (\<sigma>d other) as \<and> inv_d h (\<sigma>d this) bs \<and> set as \<inter> set bs = {}"
    using move_assign_d_ok[of this other h \<sigma>d as bs] that by blast
  show ?thesis
    using va sa da by (simp add: v v0 s s0 d)
qed

theorem move_transfers_state_and_empties_source_witness:
  "(1::nat) \<noteq> 0 \<and> inv_d sample_h (sample_ds 0) [0, 1, 2] \<and> inv_d sample_h (sample_ds 1) [] \<and>
   fst (move_ctor_v sample_v) = sample_v \<and>
   elems_v (snd (move_ctor_v sample_v)) = [] \<and>
   move_assign_v 1 0 sample_vs
     = Returns () (sample_vs(1 := sample_vs 0, 0 := \<lparr>data = Null, capacity = 0, length_v = 0\<rparr>)) \<and>
   move_assign_s 1 0 sample_ss = Returns () (sample_ss(1 := sample_ss 0, 0 := slist_ctor)) \<and>
   (\<exists>h'. move_assign_d 1 0 (sample_h, sample_ds)
            = Returns () (h', sample_ds(1 := sample_ds 0, 0 := dlist_ctor)) \<and>
      inv_d h' (sample_ds 0) [0, 1, 2] \<and> elems_d h' [0, 1, 2] = [10, 20, 30])"
proof -
  have st: "sample_ds 0 = sample_d" "sample_ds 1 = dlist_ctor" "sample_ds (Suc 0) = dlist_ctor"
    by (simp_all add: sample_ds_def)
  have i: "inv_d sample_h (sample_ds 0) [0, 1, 2]" "inv_d sample_h (sample_ds 1) []"
    unfolding st by (rule inv_sample_d(1), rule inv_d_ctor)
  show ?thesis
    using move_transfers_state_and_empties_source
      [where v = sample_v and this = 1 and other = 0 and \<sigma>v = sample_vs and \<sigma>s = sample_ss
         and \<sigma>d = sample_ds and h = sample_h and as = "[0, 1, 2]" and bs = "[]"
         and l = sample_s and d = sample_d] i
    by (auto simp: inv_sample_d(2) st(1) simp del: One_nat_def)
qed


text \<open>
  C5. Copy assignment \<open>b = a\<close> between two different objects returns with \<open>b\<close>
  holding the sequence of \<open>a\<close> and \<open>a\<close> as it was; for the vector the new buffer
  has the capacity of the source. The copy shares no storage with the source: whatever
  \<open>push_back\<close>, \<open>insert\<close>, \<open>erase\<close> or assignment through \<open>operator[]\<close> is then
  called on one of the two objects, and whether it returns or throws, the other object
  and its sequence are what they were. For \<open>dlist\<close> the nodes of the copy are new
  nodes, none of them a node of the source.
\<close>

theorem copy_assignment_is_independent:
  "(b \<noteq> a \<and> inv_v (\<sigma>v a) \<longrightarrow>
      (\<exists>vb. copy_assign_v b a \<sigma>v = Returns () (\<sigma>v(b := vb)) \<and> inv_v vb \<and>
         elems_v vb = elems_v (\<sigma>v a) \<and> capacity vb = capacity (\<sigma>v a) \<and>
         (\<sigma>v(b := vb)) a = \<sigma>v a \<and>
         (\<forall>m r e \<sigma>'. on_object b (mutate_v m) (\<sigma>v(b := vb)) = Returns r \<sigma>' \<or>
                     on_object b (mutate_v m) (\<sigma>v(b := vb)) = Throws e \<sigma>' \<longrightarrow> \<sigma>' a = \<sigma>v a) \<and>
         (\<forall>m r e \<sigma>'. on_object a (mutate_v m) (\<sigma>v(b := vb)) = Returns r \<sigma>' \<or>
                     on_object a (mutate_v m) (\<sigma>v(b := vb)) = Throws e \<sigma>' \<longrightarrow> \<sigma>' b = vb))) \<and>
   (b \<noteq> a \<longrightarrow>
      (\<exists>lb. copy_assign_s b a \<sigma>s = Returns () (\<sigma>s(b := lb)) \<and> inv_s lb \<and>
         elems_s lb = elems_s (\<sigma>s a) \<and>
         (\<sigma>s(b := lb)) a = \<sigma>s a \<and>
         (\<forall>m r e \<sigma>'. on_object b (mutate_s m) (\<sigma>s(b := lb)) = Returns r \<sigma>' \<or>
                     on_object b (mutate_s m) (\<sigma>s(b := lb)) = Throws e \<sigma>' \<longrightarrow> \<sigma>' a = \<sigma>s a) \<and>
         (\<forall>m r e \<sigma>'. on_object a (mutate_s m) (\<sigma>s(b := lb)) = Returns r \<sigma>' \<or>
                     on_object a (mutate_s m) (\<sigma>s(b := lb)) = Throws e \<sigma>' \<longrightarrow> \<sigma>' b = lb))) \<and>
   (b \<noteq> a \<and> inv_d h (\<sigma>d a) as \<and> inv_d h (\<sigma>d b) bs \<and> set as \<inter> set bs = {} \<longrightarrow>
      (\<exists>h' db bs'.
         copy_assign_d b a (h, \<sigma>d) = Some (Returns () (h', \<sigma>d(b := db))) \<and>
         inv_d h' db bs' \<and> elems_d h' bs' = elems_d h as \<and>
         inv_d h' (\<sigma>d a) as \<and> elems_d h' as = elems_d h as \<and>
         set as \<inter> set bs' = {} \<and>
         (\<forall>m. \<exists>h'' d''.
            (on_object_d b (mutate_d m) (h', \<sigma>d(b := db))
               = Some (Returns () (h'', (\<sigma>d(b := db))(b := d''))) \<or>
             on_object_d b (mutate_d m) (h', \<sigma>d(b := db))
               = Some (Throws out_of_range (h'', (\<sigma>d(b := db))(b := d'')))) \<and>
            inv_d h'' (\<sigma>d a) as \<and> elems_d h'' as = elems_d h as) \<and>
         (\<forall>m. \<exists>h'' d''.
            (on_object_d a (mutate_d m) (h', \<sigma>d(b := db))
               = Some (Returns () (h'', (\<sigma>d(b := db))(a := d''))) \<or>
             on_object_d a (mutate_d m) (h', \<sigma>d(b := db))
               = Some (Throws out_of_range (h'', (\<sigma>d(b := db))(a := d'')))) \<and>
            inv_d h'' db bs' \<and> elems_d h'' bs' = elems_d h as)))"
proof -
  have keep: "\<And>(\<sigma> :: nat \<Rightarrow> 's) (f :: 's \<Rightarrow> ('r, 's) outcome) p q r e \<sigma>'.
      on_object p f \<sigma> = Returns r \<sigma>' \<or> on_object p f \<sigma> = Throws e \<sigma>' \<Longrightarrow> q \<noteq> p \<Longrightarrow> \<sigma>' q = \<sigma> q"
    by (rule mutation_keeps_other)
  have vec: "\<exists>vb. copy_assign_v b a \<sigma>v = Returns () (\<sigma>v(b := vb)) \<and> inv_v vb \<and>
      elems_v vb = elems_v (\<sigma>v a) \<and> capacity vb = capacity (\<sigma>v a) \<and>
      (\<sigma>v(b := vb)) a = \<sigma>v a \<and>
      (\<forall>m r e \<sigma>'. on_object b (mutate_v m) (\<sigma>v(b := vb)) = Returns r \<sigma>' \<or>
                  on_object b (mutate_v m) (\<sigma>v(b := vb)) = Throws e \<sigma>' \<longrightarrow> \<sigma>' a = \<sigma>v a) \<and>
      (\<forall>m r e \<sigma>'. on_object a (mutate_v m) (\<sigma>v(b := vb)) = Returns r \<sigma>' \<or>
                  on_object a (mutate_v m) (\<sigma>v(b := vb)) = Throws e \<sigma>' \<longrightarrow> \<sigma>' b = vb)"
    if h: "b \<noteq> a \<and> inv_v (\<sigma>v a)"
  proof -
    from copy_assign_v_ok[of \<sigma>v a b] h obtain vb where
      vb: "copy_assign_v b a \<sigma>v = Returns () (\<sigma>v(b := vb))" "inv_v vb"
          "elems_v vb = elems_v (\<sigma>v a)" "capacity vb = capacity (\<sigma>v a)"
      by blast
    have k1: "\<sigma>' a = \<sigma>v a"
      if "on_object b (mutate_v m) (\<sigma>v(b := vb)) = Returns r \<sigma>' \<or>
          on_object b (mutate_v m) (\<sigma>v(b := vb)) = Throws e \<sigma>'" for m r e \<sigma>'
      using keep[OF that, of a] h by simp
    have k2: "\<sigma>' b = vb"
      if "on_object a (mutate_v m) (\<sigma>v(b := vb)) = Returns r \<sigma>' \<or>
          on_object a (mutate_v m) (\<sigma>v(b := vb)) = Throws e \<sigma>'" for m r e \<sigma>'
      using keep[OF that, of b] h by simp
    have fu: "(\<sigma>v(b := vb)) a = \<sigma>v a"
      using h by simp
    show ?thesis
      using vb fu k1 k2 by (intro exI[of _ vb]) blast
  qed
  have sl: "\<exists>lb. copy_assign_s b a \<sigma>s = Returns () (\<sigma>s(b := lb)) \<and> inv_s lb \<and>
      elems_s lb = elems_s (\<sigma>s a) \<and>
      (\<sigma>s(b := lb)) a = \<sigma>s a \<and>
      (\<forall>m r e \<sigma>'. on_object b (mutate_s m) (\<sigma>s(b := lb)) = Returns r \<sigma>' \<or>
                  on_object b (mutate_s m) (\<sigma>s(b := lb)) = Throws e \<sigma>' \<longrightarrow> \<sigma>' a = \<sigma>s a) \<and>
      (\<forall>m r e \<sigma>'. on_object a (mutate_s m) (\<sigma>s(b := lb)) = Returns r \<sigma>' \<or>
                  on_object a (mutate_s m) (\<sigma>s(b := lb)) = Throws e \<sigma>' \<longrightarrow> \<sigma>' b = lb)"
    if h: "b \<noteq> a"
  proof -
    from copy_assign_s_ok[OF h, of \<sigma>s] obtain lb where
      lb: "copy_assign_s b a \<sigma>s = Returns () (\<sigma>s(b := lb))" "inv_s lb"
          "elems_s lb = elems_s (\<sigma>s a)"
      by blast
    have k1: "\<sigma>' a = \<sigma>s a"
      if "on_object b (mutate_s m) (\<sigma>s(b := lb)) = Returns r \<sigma>' \<or>
          on_object b (mutate_s m) (\<sigma>s(b := lb)) = Throws e \<sigma>'" for m r e \<sigma>'
      using keep[OF that, of a] h by simp
    have k2: "\<sigma>' b = lb"
      if "on_object a (mutate_s m) (\<sigma>s(b := lb)) = Returns r \<sigma>' \<or>
          on_object a (mutate_s m) (\<sigma>s(b := lb)) = Throws e \<sigma>'" for m r e \<sigma>'
      using keep[OF that, of b] h by simp
    have fu: "(\<sigma>s(b := lb)) a = \<sigma>s a"
      using h by simp
    show ?thesis
      using lb fu k1 k2 by (intro exI[of _ lb]) blast
  qed
  have dl: "\<exists>h' db bs'.
      copy_assign_d b a (h, \<sigma>d) = Some (Returns () (h', \<sigma>d(b := db))) \<and>
      inv_d h' db bs' \<and> elems_d h' bs' = elems_d h as \<and>
      inv_d h' (\<sigma>d a) as \<and> elems_d h' as = elems_d h as \<and>
      set as \<inter> set bs' = {} \<and>
      (\<forall>m. \<exists>h'' d''.
         (on_object_d b (mutate_d m) (h', \<sigma>d(b := db))
            = Some (Returns () (h'', (\<sigma>d(b := db))(b := d''))) \<or>
          on_object_d b (mutate_d m) (h', \<sigma>d(b := db))
            = Some (Throws out_of_range (h'', (\<sigma>d(b := db))(b := d'')))) \<and>
         inv_d h'' (\<sigma>d a) as \<and> elems_d h'' as = elems_d h as) \<and>
      (\<forall>m. \<exists>h'' d''.
         (on_object_d a (mutate_d m) (h', \<sigma>d(b := db))
            = Some (Returns () (h'', (\<sigma>d(b := db))(a := d''))) \<or>
          on_object_d a (mutate_d m) (h', \<sigma>d(b := db))
            = Some (Throws out_of_range (h'', (\<sigma>d(b := db))(a := d'')))) \<and>
         inv_d h'' db bs' \<and> elems_d h'' bs' = elems_d h as)"
    if h: "b \<noteq> a \<and> inv_d h (\<sigma>d a) as \<and> inv_d h (\<sigma>d b) bs \<and> set as \<inter> set bs = {}"
  proof -
    from copy_assign_d_ok[of b a h \<sigma>d as bs] h obtain h' db bs' where
      r: "copy_assign_d b a (h, \<sigma>d) = Some (Returns () (h', \<sigma>d(b := db)))"
         "inv_d h' db bs'" "elems_d h' bs' = elems_d h as"
         "inv_d h' (\<sigma>d a) as" "elems_d h' as = elems_d h as" "set as \<inter> set bs' = {}"
      by blast
    let ?\<sigma> = "\<sigma>d(b := db)"
    have ne: "a \<noteq> b" "b \<noteq> a"
      using h by auto
    have eq: "?\<sigma> a = \<sigma>d a" "?\<sigma> b = db"
      using ne by simp_all
    have ib: "inv_d h' (?\<sigma> b) bs'" and ia: "inv_d h' (?\<sigma> a) as"
      using r(2,4) unfolding eq by simp_all
    have m1: "\<exists>h'' d''.
        (on_object_d b (mutate_d m) (h', ?\<sigma>) = Some (Returns () (h'', ?\<sigma>(b := d''))) \<or>
         on_object_d b (mutate_d m) (h', ?\<sigma>) = Some (Throws out_of_range (h'', ?\<sigma>(b := d'')))) \<and>
        inv_d h'' (\<sigma>d a) as \<and> elems_d h'' as = elems_d h as" for m
      using mutation_keeps_other_d[OF ib ia r(6) ne(1), of m] unfolding eq r(5) by blast
    have m2: "\<exists>h'' d''.
        (on_object_d a (mutate_d m) (h', ?\<sigma>) = Some (Returns () (h'', ?\<sigma>(a := d''))) \<or>
         on_object_d a (mutate_d m) (h', ?\<sigma>) = Some (Throws out_of_range (h'', ?\<sigma>(a := d'')))) \<and>
        inv_d h'' db bs' \<and> elems_d h'' bs' = elems_d h as" for m
    proof -
      have "set bs' \<inter> set as = {}"
        using r(6) by auto
      from mutation_keeps_other_d[OF ia ib this ne(2), of m] show ?thesis
        unfolding eq r(3) by blast
    qed
    show ?thesis
      using r m1 m2 by blast
  qed
  show ?thesis
    using vec sl dl by blast
qed

theorem copy_assignment_is_independent_witness:
  "(1::nat) \<noteq> 0 \<and> inv_v (sample_vs 0) \<and>
   inv_d sample_h (sample_ds 0) [0, 1, 2] \<and> inv_d sample_h (sample_ds 1) [] \<and>
   (\<exists>vb. copy_assign_v 1 0 sample_vs = Returns () (sample_vs(1 := vb)) \<and>
      elems_v vb = [10, 20, 30] \<and> capacity vb = 4 \<and>
      (\<forall>m r e \<sigma>'. on_object 1 (mutate_v m) (sample_vs(1 := vb)) = Returns r \<sigma>' \<or>
                  on_object 1 (mutate_v m) (sample_vs(1 := vb)) = Throws e \<sigma>' \<longrightarrow> \<sigma>' 0 = sample_v)) \<and>
   (\<exists>lb. copy_assign_s 1 0 sample_ss = Returns () (sample_ss(1 := lb)) \<and>
      elems_s lb = [10, 20, 30] \<and>
      (\<forall>m r e \<sigma>'. on_object 1 (mutate_s m) (sample_ss(1 := lb)) = Returns r \<sigma>' \<or>
                  on_object 1 (mutate_s m) (sample_ss(1 := lb)) = Throws e \<sigma>' \<longrightarrow> \<sigma>' 0 = sample_s)) \<and>
   (\<exists>h' db bs'. copy_assign_d 1 0 (sample_h, sample_ds) = Some (Returns () (h', sample_ds(1 := db))) \<and>
      inv_d h' db bs' \<and> elems_d h' bs' = [10, 20, 30] \<and>
      inv_d h' sample_d [0, 1, 2] \<and> elems_d h' [0, 1, 2] = [10, 20, 30] \<and>
      set [0, 1, 2] \<inter> set bs' = {})"
proof -
  have st: "sample_ds 0 = sample_d" "sample_ds 1 = dlist_ctor"
      "sample_vs 0 = sample_v" "sample_ss 0 = sample_s"
    by (simp_all add: sample_ds_def sample_vs_def sample_ss_def)
  have i: "inv_d sample_h (sample_ds 0) [0, 1, 2]" "inv_d sample_h (sample_ds 1) []"
      "inv_v (sample_vs 0)"
    unfolding st by (rule inv_sample_d(1), rule inv_d_ctor, rule inv_sample_v(1))
  have c: "capacity sample_v = 4"
    by (simp add: sample_v_def)
  show ?thesis
    using copy_assignment_is_independent
      [where b = 1 and a = 0 and \<sigma>v = sample_vs and \<sigma>s = sample_ss and \<sigma>d = sample_ds
         and h = sample_h and as = "[0, 1, 2]" and bs = "[]"] i
    by (simp add: st inv_sample_v(3) inv_sample_s(2) inv_sample_d(2) c del: One_nat_def) blast
qed


text \<open>
  C6. In each container \<open>insert(x, size())\<close> has the outcome of \<open>push_back(x)\<close> in every
  state (lemmas \<open>insert_v_at_size\<close>, \<open>insert_s_at_size\<close> and \<open>insert_d_at_size\<close>
  above). The second half of the claim, \<open>insert(x, 0)\<close> on an empty container, fails on
  the vector that a move has emptied: its size is 0 and its sequence is empty, and
  \<open>insert(5, 0)\<close> on it is undefined, because \<open>resize\<close> leaves the capacity at 0 and the
  store writes past the end of an array of no cells. The lists that a move has emptied
  return with the one element, and so does every empty vector of capacity at least 1
  (lemma \<open>insert_v_front_of_empty\<close> above).
\<close>

theorem insert_at_front_of_moved_from_vector_overruns:
  "size_v (snd (move_ctor_v sample_v)) = 0 \<and>
   elems_v (snd (move_ctor_v sample_v)) = [] \<and>
   insert_v (Value 5) 0 (snd (move_ctor_v sample_v)) = Undefined \<and>
   insert_s 5 0 (snd (move_ctor_s sample_s))
     = Returns () \<lparr>head_s = Some (Node 5 None), length_s = 1\<rparr> \<and>
   insert_d 5 0 (sample_h, snd (move_ctor_d sample_d))
     = Returns ()
         (sample_h @ [Some \<lparr>value_d = 5, next_d = None, prev_d = None\<rparr>],
          \<lparr>head_d = Some 3, length_d = 1\<rparr>)"
  by (simp add: move_ctor_v_def move_ctor_s_def move_ctor_d_def size_v_def elems_v_def
      insert_v_def resize_def int32_def copy_loop_none new_array_def shift_right_none
      insert_s_def insert_d_def make_shared_def sample_h_def)

text \<open>
  C7. The claim as amended: starting from an empty container, for the vector one whose
  capacity is at least 1 and with a list \<open>S\<close> of at most \<open>2 ^ 30\<close> elements,
  \<open>push_back(x)\<close> for each \<open>x\<close> of \<open>S\<close> returns every time, and the loop
  \<open>for (i = begin(); i != end(); ++i)\<close> then reads exactly \<open>S\<close>, in order. An empty
  container is one that satisfies the invariant of its data model and has size 0.
\<close>

theorem append_then_iterate_round_trip:
  "(inv_v v \<and> size_v v = 0 \<and> 0 < capacity v \<and> int (length S) \<le> 2 ^ 30 \<longrightarrow>
      (\<exists>v'. append_all_v S v = Returns () v' \<and>
         iterate_v v' (begin_v v') (end_v v') [] = Some S)) \<and>
   (inv_s l \<and> size_s l = 0 \<longrightarrow>
      (\<exists>l'. append_all_s S l = Returns () l' \<and>
         iterate_s (begin_s l') (end_s l') [] = Some S)) \<and>
   (inv_d h d as \<and> size_d d = 0 \<longrightarrow>
      (\<exists>h' d'. append_all_d S (h, d) = Some (Returns () (h', d')) \<and>
         iterate_d h' (begin_d d') (end_d d') [] = Some (Some S)))"
proof -
  have vec: "\<exists>v'. append_all_v S v = Returns () v' \<and>
      iterate_v v' (begin_v v') (end_v v') [] = Some S"
    if a: "inv_v v \<and> size_v v = 0 \<and> 0 < capacity v \<and> int (length S) \<le> 2 ^ 30"
  proof -
    have l: "length_v v = 0"
      using a by (simp add: size_v_def)
    have e: "elems_v v = []"
      using a length_elems_v[of v] l by simp
    have "length_v v + int (length S) \<le> 2 ^ 30"
      using a l by simp
    from append_all_v_ok[OF _ _ this] a obtain v' where
      v': "append_all_v S v = Returns () v'" "inv_v v'" "elems_v v' = S"
      by (auto simp: e)
    show ?thesis
      using v'(1,3) iterate_v_ok[OF v'(2)] by auto
  qed
  have sl: "\<exists>l'. append_all_s S l = Returns () l' \<and>
      iterate_s (begin_s l') (end_s l') [] = Some S"
    if a: "inv_s l \<and> size_s l = 0"
  proof -
    have e: "elems_s l = []"
      using a by (auto simp: inv_s_def size_s_def)
    from append_all_s_ok[of S l] obtain l' where
      l': "append_all_s S l = Returns () l'" "elems_s l' = S"
      by (auto simp: e)
    show ?thesis
      using l' iterate_s_ok[of l'] by auto
  qed
  have dl: "\<exists>h' d'. append_all_d S (h, d) = Some (Returns () (h', d')) \<and>
      iterate_d h' (begin_d d') (end_d d') [] = Some (Some S)"
    if a: "inv_d h d as \<and> size_d d = 0"
  proof -
    have e: "as = []"
      using a by (auto simp: inv_d_def size_d_def)
    from a append_all_d_ok[of h d as S] obtain h' d' as' where
      r: "append_all_d S (h, d) = Some (Returns () (h', d'))" "inv_d h' d' as'"
         "elems_d h' as' = S"
      by (auto simp: e elems_d_def)
    show ?thesis
      using r(1,3) iterate_d_ok[OF r(2)] by auto
  qed
  show ?thesis
    using vec sl dl by blast
qed

theorem append_then_iterate_round_trip_witness:
  "inv_v \<lparr>data = Array [Some (30 :: int), Some 30, Some 30, None], capacity = 4,
            length_v = 0\<rparr> \<and>
   size_v \<lparr>data = Array [Some (30 :: int), Some 30, Some 30, None], capacity = 4,
            length_v = 0\<rparr> = 0 \<and>
   int (length [1, 2, 3 :: int]) \<le> 2 ^ 30 \<and>
   (\<exists>v'. append_all_v [1, 2, 3 :: int]
            \<lparr>data = Array [Some 30, Some 30, Some 30, None], capacity = 4, length_v = 0\<rparr>
          = Returns () v' \<and>
      iterate_v v' (begin_v v') (end_v v') [] = Some [1, 2, 3]) \<and>
   inv_s (slist_ctor :: int slist) \<and> size_s (slist_ctor :: int slist) = 0 \<and>
   (\<exists>l'. append_all_s [1, 2, 3 :: int] slist_ctor = Returns () l' \<and>
      iterate_s (begin_s l') (end_s l') [] = Some [1, 2, 3]) \<and>
   inv_d sample_h dlist_ctor [] \<and> size_d dlist_ctor = 0 \<and>
   (\<exists>h' d'. append_all_d [1, 2, 3] (sample_h, dlist_ctor) = Some (Returns () (h', d')) \<and>
      iterate_d h' (begin_d d') (end_d d') [] = Some (Some [1, 2, 3]))"
proof -
  let ?v = "\<lparr>data = Array [Some 30, Some 30, Some 30, None], capacity = 4, length_v = 0\<rparr>
    :: int myvector"
  have hyp: "inv_v ?v" "size_v ?v = 0" "0 < capacity ?v" "int (length [1, 2, 3 :: int]) \<le> 2 ^ 30"
      "inv_s (slist_ctor :: int slist)" "size_s (slist_ctor :: int slist) = 0"
      "inv_d sample_h dlist_ctor []" "size_d dlist_ctor = 0"
    by (simp_all add: inv_v_def size_v_def inv_s_def size_s_def elems_s_def slist_ctor_def
        inv_d_def size_d_def dlist_ctor_def)
  show ?thesis
    using append_then_iterate_round_trip
      [where v = ?v and S = "[1, 2, 3]" and l = "slist_ctor :: int slist" and h = sample_h
         and d = dlist_ctor and as = "[]"]
    by (simp only: hyp simp_thms)
qed

text \<open>
  C7 as the specification states it, for any finite sequence and any empty container,
  fails for the vector. Its capacity is an \<open>int\<close> that \<open>resize\<close> doubles: the
  \<open>push_back\<close> that finds \<open>2 ^ 30\<close> elements in a full array makes the capacity
  \<open>- (2 ^ 31)\<close>, \<open>new T[capacity]\<close> throws \<open>std::bad_array_new_length\<close>, the element is
  not stored and the loop over the container is not reached. On the vector that a move
  has emptied the first \<open>push_back\<close> is undefined, as under C3.
\<close>

theorem append_past_doubling_limit_fails:
  "append_all_v (replicate (2 ^ 30) (0 :: int) @ [0]) myvector_ctor
     = Throws bad_array_new_length
         \<lparr>data = Array (replicate (2 ^ 30) (Some 0)), capacity = - (2 ^ 31),
            length_v = 2 ^ 30\<rparr> \<and>
   append_all_v [0 :: int] (snd (move_ctor_v myvector_ctor)) = Undefined"
proof -
  have "length (replicate (2 ^ 30) (0 :: int)) = 2 ^ 30"
    by (rule length_replicate)
  from append_all_v_past_limit[OF this, of 0]
  have "append_all_v (replicate (2 ^ 30) (0 :: int) @ [0]) myvector_ctor
     = Throws bad_array_new_length
         \<lparr>data = Array (replicate (2 ^ 30) (Some 0)), capacity = - (2 ^ 31),
            length_v = 2 ^ 30\<rparr>"
    by (simp only: map_replicate)
  moreover have "append_all_v [0 :: int] (snd (move_ctor_v myvector_ctor)) = Undefined"
    by (simp add: move_ctor_v_def push_back_v_def resize_def int32_def copy_loop_none
        new_array_def)
  ultimately show ?thesis
    by (rule conjI)
qed

text \<open>
  C8. \<open>print\<close> writes the elements in order, each followed by one space, and then a
  newline; it returns with the container in the state it was called in. The text is the
  result of the model, so nothing else is written.
\<close>

theorem print_writes_the_sequence:
  "(inv_v v \<longrightarrow> print_v shw v = Returns (line_of shw (elems_v v)) v) \<and>
   print_s shw l = Returns (line_of shw (elems_s l)) l \<and>
   (inv_d h d as \<longrightarrow> print_d shw (h, d) = Some (Returns (line_of shw (elems_d h as)) (h, d)))"
  using print_v_ok[of v shw] print_s_ok[of shw l] print_d_ok[of h d as shw]
  by (simp add: line_of_def)

theorem print_writes_the_sequence_witness:
  "inv_v sample_v \<and> inv_d sample_h sample_d [0, 1, 2] \<and>
   print_v (\<lambda>n. if n = 10 then ''10'' else if n = 20 then ''20'' else ''30'') sample_v
     = Returns (''10 20 30 '' @ [CHR 0x0A]) sample_v \<and>
   print_s (\<lambda>n. if n = 10 then ''10'' else if n = 20 then ''20'' else ''30'') sample_s
     = Returns (''10 20 30 '' @ [CHR 0x0A]) sample_s \<and>
   print_d (\<lambda>n. if n = 10 then ''10'' else if n = 20 then ''20'' else ''30'') (sample_h, sample_d)
     = Some (Returns (''10 20 30 '' @ [CHR 0x0A]) (sample_h, sample_d))"
  using print_writes_the_sequence
    [where v = sample_v and l = sample_s and h = sample_h and d = sample_d and as = "[0, 1, 2]"
       and shw = "\<lambda>n. if n = 10 then ''10'' else if n = 20 then ''20'' else ''30''"]
    inv_sample_v inv_sample_s inv_sample_d
  by (simp add: line_of_def del: One_nat_def)

text \<open>
  C9. Assigning a container to itself, by copy or by move, is a no-op in all three
  containers: the operator returns at once and the whole state (sequence, length and, for
  the vector, capacity and buffer) is what it was.
\<close>

theorem self_assignment_is_noop:
  "copy_assign_v a a \<sigma>v = Returns () \<sigma>v \<and> move_assign_v a a \<sigma>v = Returns () \<sigma>v \<and>
   copy_assign_s a a \<sigma>s = Returns () \<sigma>s \<and> move_assign_s a a \<sigma>s = Returns () \<sigma>s \<and>
   copy_assign_d a a sd = Some (Returns () sd) \<and> move_assign_d a a sd = Returns () sd"
  by (cases sd)
    (simp add: copy_assign_v_def move_assign_v_def copy_assign_s_def move_assign_s_def
      copy_assign_d_def move_assign_d_def)

text \<open>
  C10. In \<open>slist\<close> and \<open>dlist\<close>, \<open>operator++\<close> on an iterator that is at \<open>end()\<close>
  (a null pointer) follows no link and leaves it at \<open>end()\<close>, however often it is applied.
\<close>

theorem increment_at_end_stays_at_end:
  "incr_s (end_s l) = end_s l \<and> (incr_s ^^ n) (end_s l) = end_s l \<and>
   incr_d h (end_d d) = Some (end_d d) \<and>
   ((\<lambda>r. Option.bind r (incr_d h)) ^^ n) (Some (end_d d)) = Some (end_d d)"
proof -
  have s: "incr_s (end_s l) = end_s l"
    by (simp add: incr_s_def end_s_def)
  have d: "incr_d h (end_d d) = Some (end_d d)"
    by (simp add: incr_d_def end_d_def)
  have sn: "(incr_s ^^ n) (end_s l) = end_s l"
    by (induction n) (simp_all add: s)
  have dn: "((\<lambda>r. Option.bind r (incr_d h)) ^^ n) (Some (end_d d)) = Some (end_d d)"
    by (induction n) (simp_all add: d)
  show ?thesis
    by (simp only: s d sn dn)
qed

end
